theory Spec2Isabelle
  imports Complex_Main
begin

section \<open>JavaScript strings\<close>

text \<open>
  A JavaScript string is modelled as a \<^typ>\<open>string\<close>: the list of its code units, each
  below 256. The two line terminators U+2028 and U+2029, which the regular-expression
  dot also refuses, lie outside this type.
\<close>

definition CR :: char where "CR = CHR 0x0D"
definition LF :: char where "LF = CHR 0x0A"

definition in_range :: "char \<Rightarrow> char \<Rightarrow> char \<Rightarrow> bool" where
  "in_range lo hi c = ((of_char lo :: nat) \<le> of_char c \<and> (of_char c :: nat) \<le> of_char hi)"

text \<open>\<^verbatim>\<open>s.startsWith(p)\<close>\<close>

definition startsWith :: "string \<Rightarrow> string \<Rightarrow> bool" where
  "startsWith s p = (take (length p) s = p)"

text \<open>\<^verbatim>\<open>s.includes(sub)\<close>\<close>

fun js_includes :: "string \<Rightarrow> string \<Rightarrow> bool" where
  "js_includes [] sub = (sub = [])"
| "js_includes (c # cs) sub = (startsWith (c # cs) sub \<or> js_includes cs sub)"

text \<open>\<^verbatim>\<open>s.toLowerCase()\<close> on code units below 256: A-Z and the Latin-1 capitals.\<close>

definition lower_char :: "char \<Rightarrow> char" where
  "lower_char c =
     (if in_range CHR ''A'' CHR ''Z'' c
         \<or> (in_range CHR 0xC0 CHR 0xDE c \<and> c \<noteq> CHR 0xD7)
      then char_of ((of_char c :: nat) + 32) else c)"

definition toLowerCase :: "string \<Rightarrow> string" where
  "toLowerCase s = map lower_char s"

text \<open>
  \<^verbatim>\<open>s.split(sep)\<close> for a non-empty separator: the pieces between the
  non-overlapping occurrences of \<open>sep\<close>, found from the left. \<open>acc\<close> holds the current
  piece, reversed.
\<close>

function js_split_from :: "string \<Rightarrow> string \<Rightarrow> string \<Rightarrow> string list" where
  "js_split_from sep acc s =
     (if sep \<noteq> [] \<and> s \<noteq> [] \<and> startsWith s sep
      then rev acc # js_split_from sep [] (drop (length sep) s)
      else (case s of [] \<Rightarrow> [rev acc] | c # cs \<Rightarrow> js_split_from sep (c # acc) cs))"
  by pat_completeness auto
termination
  by (relation "measure (\<lambda>(sep, acc, s). length s)") auto

declare js_split_from.simps [simp del]

definition js_split :: "string \<Rightarrow> string \<Rightarrow> string list" where
  "js_split sep s = js_split_from sep [] s"

text \<open>
  \<^verbatim>\<open>parseInt(s, 10)\<close> on a string that starts with decimal digits: the value of the
  leading digits (\<open>None\<close> is NaN). The callers pass three digits.
\<close>

definition digit :: "char \<Rightarrow> bool" where
  "digit c = in_range CHR ''0'' CHR ''9'' c"

definition digit_val :: "char \<Rightarrow> nat" where
  "digit_val c = of_char c - of_char CHR ''0''"

definition parseInt :: "string \<Rightarrow> nat option" where
  "parseInt s =
     (case takeWhile digit s of [] \<Rightarrow> None
      | ds \<Rightarrow> Some (foldl (\<lambda>n c. 10 * n + digit_val c) 0 ds))"

section \<open>Regular expressions\<close>

text \<open>
  The regular expressions of the source use character classes, sequence, alternation
  and the quantifiers \<open>?\<close>, \<open>*\<close>, \<open>+\<close>, \<open>{0,n}\<close>, \<open>{2,}\<close>. \<open>rems r s\<close> lists what is left
  of \<open>s\<close> after each way of matching \<open>r\<close> at its start, the greedy way first, as a
  backtracking matcher explores them.
\<close>

datatype rx = Cls "char \<Rightarrow> bool" | Eps | Seq rx rx | Alt rx rx | Star rx

fun iterate_rems :: "(string \<Rightarrow> string list) \<Rightarrow> nat \<Rightarrow> string \<Rightarrow> string list" where
  "iterate_rems f 0 s = [s]"
| "iterate_rems f (Suc k) s =
     concat (map (iterate_rems f k) (filter (\<lambda>t. length t < length s) (f s))) @ [s]"

primrec rems :: "rx \<Rightarrow> string \<Rightarrow> string list" where
  "rems (Cls P) s = (case s of [] \<Rightarrow> [] | c # cs \<Rightarrow> if P c then [cs] else [])"
| "rems Eps s = [s]"
| "rems (Seq a b) s = concat (map (rems b) (rems a s))"
| "rems (Alt a b) s = rems a s @ rems b s"
| "rems (Star a) s = iterate_rems (rems a) (length s) s"

definition Chr :: "char \<Rightarrow> rx" where "Chr c = Cls (\<lambda>x. x = c)"
definition Opt :: "rx \<Rightarrow> rx" where "Opt r = Alt r Eps"
definition Plus :: "rx \<Rightarrow> rx" where "Plus r = Seq r (Star r)"

primrec upto_times :: "nat \<Rightarrow> rx \<Rightarrow> rx" where
  "upto_times 0 r = Eps"
| "upto_times (Suc n) r = Opt (Seq r (upto_times n r))"

text \<open>\<^verbatim>\<open>/^r$/.test(s)\<close> and \<^verbatim>\<open>/^r/.test(s)\<close>\<close>

definition test_full :: "rx \<Rightarrow> string \<Rightarrow> bool" where
  "test_full r s = ([] \<in> set (rems r s))"

definition test_prefix :: "rx \<Rightarrow> string \<Rightarrow> bool" where
  "test_prefix r s = (rems r s \<noteq> [])"

text \<open>The words of a regular expression, for reasoning about \<open>rems\<close>.\<close>

inductive_set iter :: "string set \<Rightarrow> string set" for L :: "string set" where
  iter_Nil: "[] \<in> iter L"
| iter_App: "u \<in> L \<Longrightarrow> v \<in> iter L \<Longrightarrow> u @ v \<in> iter L"

primrec lang :: "rx \<Rightarrow> string set" where
  "lang (Cls P) = {[c] | c. P c}"
| "lang Eps = {[]}"
| "lang (Seq a b) = {u @ v | u v. u \<in> lang a \<and> v \<in> lang b}"
| "lang (Alt a b) = lang a \<union> lang b"
| "lang (Star a) = iter (lang a)"

text \<open>The characters a word of the expression can contain.\<close>

primrec alphabet :: "rx \<Rightarrow> char set" where
  "alphabet (Cls P) = {c. P c}"
| "alphabet Eps = {}"
| "alphabet (Seq a b) = alphabet a \<union> alphabet b"
| "alphabet (Alt a b) = alphabet a \<union> alphabet b"
| "alphabet (Star a) = alphabet a"

definition alpha :: "char \<Rightarrow> bool" where
  "alpha c = (in_range CHR ''a'' CHR ''z'' c \<or> in_range CHR ''A'' CHR ''Z'' c)"

definition alnum :: "char \<Rightarrow> bool" where
  "alnum c = (alpha c \<or> in_range CHR ''0'' CHR ''9'' c)"

text \<open>The dot of a JavaScript regular expression without the \<open>s\<close> flag.\<close>

definition dot :: "char \<Rightarrow> bool" where
  "dot c = (c \<noteq> LF \<and> c \<noteq> CR)"

section \<open>SMTP client (smtp.js)\<close>

record smtp_response =
  code :: nat
  message :: string
  fullResponse :: string

text \<open>\<^verbatim>\<open>/^\d{3}(?:[ -].*)?$/\<close> and \<^verbatim>\<open>/^\d{3}-/\<close>\<close>

definition replyRegex :: rx where
  "replyRegex =
     Seq (Cls digit) (Seq (Cls digit) (Seq (Cls digit)
       (Opt (Seq (Cls (\<lambda>c. c = CHR '' '' \<or> c = CHR ''-'')) (Star (Cls dot))))))"

definition continuationRegex :: rx where
  "continuationRegex = Seq (Cls digit) (Seq (Cls digit) (Seq (Cls digit) (Chr CHR ''-'')))"

definition complete_line :: "string \<Rightarrow> bool" where
  "complete_line line = (test_full replyRegex line \<and> \<not> test_prefix continuationRegex line)"

text \<open>
  \<open>handleResponse\<close> is the \<open>data\<close> listener of \<open>command\<close>: it appends the delivery to the
  buffer \<open>response\<close>, splits the buffer at CR LF and resolves with the first line that
  is a complete reply. It returns the new buffer and the resolution, if any.
\<close>

definition handleResponse :: "string \<Rightarrow> string \<Rightarrow> string \<times> smtp_response option" where
  "handleResponse response data =
     (let response' = response @ data in
      (response',
       case find complete_line (js_split [CR, LF] response') of
         None \<Rightarrow> None
       | Some line \<Rightarrow>
           Some \<lparr>code = (case parseInt (take 3 line) of Some n \<Rightarrow> n | None \<Rightarrow> 0),
                 message = drop 4 line,
                 fullResponse = response'\<rparr>))"

text \<open>
  The promise of \<open>command\<close>, given the deliveries that reach the listener before the
  read timer fires: the first resolution, or the rejection of the timer once the
  deliveries are used up.
\<close>

fun awaitResponse :: "string \<Rightarrow> string list \<Rightarrow> string + smtp_response" where
  "awaitResponse response [] = Inl ''Response timeout''"
| "awaitResponse response (data # rest) =
     (case handleResponse response data of
        (response', Some r) \<Rightarrow> Inr r
      | (response', None) \<Rightarrow> awaitResponse response' rest)"

text \<open>
  What becomes of the promise of \<open>upgradeToTLS\<close>: the handshake completes, the TLS socket
  emits an error, or neither happens. \<open>connect\<close> and \<open>command\<close> set a timer that rejects
  their promise; \<open>upgradeToTLS\<close> sets none, so its promise stays pending when the server
  is silent after its answer to STARTTLS.
\<close>

datatype tls_outcome = Upgraded | HandshakeFailed string | HandshakePending

text \<open>
  What the network does during one connection: whether \<open>connect\<close> fails, and for the
  \<open>n\<close>-th call of \<open>command\<close> whether \<open>socket.write\<close> throws and which deliveries arrive
  inside the timer's window; what becomes of the TLS handshake. A function whose promise
  may stay pending returns an option, and \<open>None\<close> is the promise that never settles.
\<close>

record smtp_env =
  connect_error :: "string option"
  write_error :: "nat \<Rightarrow> string option"
  deliveries :: "nat \<Rightarrow> string list"
  handshake :: tls_outcome

definition command :: "smtp_env \<Rightarrow> nat \<Rightarrow> string option \<Rightarrow> string + smtp_response" where
  "command env n cmd =
     (case (if cmd = None \<or> cmd = Some [] then None else write_error env n) of
        Some err \<Rightarrow> Inl err
      | None \<Rightarrow> awaitResponse [] (deliveries env n))"

text \<open>
  The framing rule in the words of the specification: a reply line is a three-digit
  code followed by a space or by the end of the line; a continuation line is a
  three-digit code followed by a hyphen.
\<close>

definition reply_line :: "string \<Rightarrow> bool" where
  "reply_line l = (3 \<le> length l \<and> list_all digit (take 3 l) \<and> (length l = 3 \<or> l ! 3 = CHR '' ''))"

definition continuation_line :: "string \<Rightarrow> bool" where
  "continuation_line l = (3 < length l \<and> list_all digit (take 3 l) \<and> l ! 3 = CHR ''-'')"

definition terminating_line :: "string \<Rightarrow> bool" where
  "terminating_line l = (reply_line l \<and> \<not> continuation_line l)"

text \<open>
  The lines a buffer holds are the pieces that end with CR LF; what follows the last
  CR LF is a partial read, the beginning of a line whose rest has not arrived.
\<close>

definition terminated_lines :: "string \<Rightarrow> string list" where
  "terminated_lines buffer = butlast (js_split [CR, LF] buffer)"

text \<open>The buffer of the \<open>n\<close>-th command after its first \<open>k\<close> deliveries.\<close>

definition buffer_after :: "smtp_env \<Rightarrow> nat \<Rightarrow> nat \<Rightarrow> string" where
  "buffer_after env n k = concat (take k (deliveries env n))"


section \<open>Provider policies (providers.js)\<close>

text \<open>
  A provider configuration. The generic configuration has no \<open>provider\<close>, \<open>domains\<close>,
  \<open>mxDomains\<close>, \<open>heloHost\<close> and \<open>fromAddresses\<close>, and only it has \<open>tempCodes\<close>. The
  field \<open>verifyMailbox\<close> of the source is \<open>verifyMailboxFlag\<close> here.
\<close>

record provider_config =
  provider :: "string option"
  domains :: "string list"
  mxDomains :: "string list"
  reliable :: bool
  heloHost :: "string option"
  verifyMailboxFlag :: bool
  requireTLS :: bool
  timeout :: nat
  acceptCodes :: "nat list"
  rejectCodes :: "nat list"
  tempCodes :: "nat list option"
  retryAttempts :: nat
  fromAddresses :: "string list option"

definition PROVIDERS :: "(string \<times> provider_config) list" where
  "PROVIDERS =
    [(''gmail.com'',
      \<lparr>provider = None,
       domains = [''gmail.com'', ''googlemail.com''],
       mxDomains = [''google.com'', ''googlemail.com'', ''gmail.com''],
       reliable = True,
       heloHost = Some ''gmail-smtp-in.l.google.com'',
       verifyMailboxFlag = True,
       requireTLS = True,
       timeout = 15000,
       acceptCodes = [250],
       rejectCodes = [550, 551, 552, 553, 554],
       tempCodes = None,
       retryAttempts = 2,
       fromAddresses = Some [''postmaster@gmail.com'', ''verify@gmail.com'']\<rparr>),
     (''outlook.com'',
      \<lparr>provider = None,
       domains = [''outlook.com'', ''hotmail.com'', ''live.com'', ''msn.com''],
       mxDomains = [''outlook.com'', ''hotmail.com'', ''microsoft.com''],
       reliable = True,
       heloHost = Some ''outlook-com.olc.protection.outlook.com'',
       verifyMailboxFlag = True,
       requireTLS = True,
       timeout = 20000,
       acceptCodes = [250],
       rejectCodes = [550, 551, 552, 553, 554],
       tempCodes = None,
       retryAttempts = 3,
       fromAddresses = Some [''postmaster@outlook.com'', ''verify@outlook.com'']\<rparr>),
     (''yahoo.com'',
      \<lparr>provider = None,
       domains = [''yahoo.com'', ''ymail.com''],
       mxDomains = [''yahoo.com'', ''yahoodns.net''],
       reliable = True,
       heloHost = Some ''mta7.am0.yahoodns.net'',
       verifyMailboxFlag = True,
       requireTLS = True,
       timeout = 12000,
       acceptCodes = [250],
       rejectCodes = [550, 551, 552, 553, 554],
       tempCodes = None,
       retryAttempts = 2,
       fromAddresses = Some [''postmaster@yahoo.com'', ''verify@yahoo.com'']\<rparr>)]"

definition genericConfig :: provider_config where
  "genericConfig =
     \<lparr>provider = None, domains = [], mxDomains = [],
      reliable = False,
      heloHost = None,
      verifyMailboxFlag = True,
      requireTLS = False,
      timeout = 10000,
      acceptCodes = [250, 251],
      rejectCodes = [550, 551, 553, 554],
      tempCodes = Some [450, 451, 452],
      retryAttempts = 2,
      fromAddresses = None\<rparr>"

definition getProviderConfig :: "string \<Rightarrow> provider_config" where
  "getProviderConfig domain =
     (let lowerDomain = toLowerCase domain in
      case find (\<lambda>(name, config). lowerDomain \<in> set (domains config)) PROVIDERS of
        Some (name, config) \<Rightarrow> config\<lparr>provider := Some name\<rparr>
      | None \<Rightarrow>
         (case find (\<lambda>(name, config).
                      list_ex (\<lambda>mxDomain. js_includes lowerDomain mxDomain) (mxDomains config))
                    PROVIDERS of
            Some (name, config) \<Rightarrow> config\<lparr>provider := Some name\<rparr>
          | None \<Rightarrow> genericConfig))"

section \<open>Mailbox probe (smtp.js)\<close>

text \<open>
  The object returned by \<open>verifyMailbox\<close> and by \<open>performSMTPCheck\<close>. \<open>replyCode\<close> and
  \<open>replyMessage\<close> are the properties \<open>code\<close> and \<open>message\<close> of the source; a property the
  source leaves out is \<open>None\<close> (\<open>False\<close> for \<open>protected\<close>).
\<close>

record smtp_result =
  success :: bool
  mailboxExists :: bool
  supportsTLS :: "bool option"
  replyCode :: "nat option"
  replyMessage :: "string option"
  error :: "string option"
  protected :: bool

text \<open>\<^verbatim>\<open>x || d\<close> for a string or undefined \<open>x\<close>: the empty string is falsy.\<close>

definition js_or :: "string option \<Rightarrow> string \<Rightarrow> string" where
  "js_or x d = (case x of None \<Rightarrow> d | Some s \<Rightarrow> if s = [] then d else s)"

text \<open>\<^verbatim>\<open>[config?.heloHost, domain, host, 'verify.local'].filter(Boolean)\<close>\<close>

definition heloHosts :: "provider_config option \<Rightarrow> string \<Rightarrow> string \<Rightarrow> string list" where
  "heloHosts config domain host =
     filter (\<lambda>h. h \<noteq> [])
       ((case config of None \<Rightarrow> []
         | Some c \<Rightarrow> (case heloHost c of None \<Rightarrow> [] | Some h \<Rightarrow> [h]))
        @ [domain, host, ''verify.local''])"

text \<open>
  The EHLO/HELO loop, from the command counter \<open>n\<close>: it returns the counter,
  \<open>ehloSuccess\<close> and \<open>ehloResponse\<close>. A rejected command leaves the loop body by its
  \<open>catch\<close>, which goes on with the next host.
\<close>

fun ehloLoop :: "smtp_env \<Rightarrow> nat \<Rightarrow> string list \<Rightarrow> smtp_response option
    \<Rightarrow> nat \<times> bool \<times> smtp_response option" where
  "ehloLoop env n [] ehloResponse = (n, False, ehloResponse)"
| "ehloLoop env n (helo # rest) ehloResponse =
     (case command env n (Some (''EHLO '' @ helo)) of
        Inl e \<Rightarrow> ehloLoop env (n + 1) rest ehloResponse
      | Inr r \<Rightarrow>
          if code r = 250 then (n + 1, True, Some r)
          else (case command env (n + 1) (Some (''HELO '' @ helo)) of
                  Inl e \<Rightarrow> ehloLoop env (n + 2) rest (Some r)
                | Inr r' \<Rightarrow>
                    if code r' = 250 then (n + 2, True, Some r')
                    else ehloLoop env (n + 2) rest (Some r')))"

text \<open>\<^verbatim>\<open>config?.requireTLS\<close>\<close>

definition requiresTLS :: "provider_config option \<Rightarrow> bool" where
  "requiresTLS config = (case config of None \<Rightarrow> False | Some c \<Rightarrow> requireTLS c)"

text \<open>
  The STARTTLS block. When it is left, it returns the error thrown out of the block, if
  any, or the command counter, and the value of \<open>supportsTLS\<close> in both cases. The three
  awaits inside the \<open>try\<close> are the STARTTLS command, \<open>upgradeToTLS\<close> and the second EHLO;
  a reply to STARTTLS other than 220 skips the upgrade without an exception, and a
  pending \<open>upgradeToTLS\<close> keeps the block from ever being left.
\<close>

definition startTLS :: "smtp_env \<Rightarrow> nat \<Rightarrow> provider_config option \<Rightarrow> string list
    \<Rightarrow> smtp_response \<Rightarrow> ((string + nat) \<times> bool) option" where
  "startTLS env n config hosts ehloResponse =
     (if js_includes (toLowerCase (fullResponse ehloResponse)) ''starttls'' then
        (case command env n (Some ''STARTTLS'') of
           Inl e \<Rightarrow>
             Some (if requiresTLS config then Inl ''Required TLS connection failed''
                   else Inr (n + 1),
                   False)
         | Inr tlsCmd \<Rightarrow>
             if code tlsCmd = 220 then
               (case handshake env of
                  HandshakePending \<Rightarrow> None
                | HandshakeFailed e \<Rightarrow>
                    Some (if requiresTLS config then Inl ''Required TLS connection failed''
                          else Inr (n + 1),
                          False)
                | Upgraded \<Rightarrow>
                    (case command env (n + 1)
                            (Some (''EHLO '' @ (case hosts of [] \<Rightarrow> ''undefined'' | h # _ \<Rightarrow> h))) of
                       Inl e \<Rightarrow>
                         Some (if requiresTLS config then Inl ''Required TLS connection failed''
                               else Inr (n + 2),
                               True)
                     | Inr _ \<Rightarrow> Some (Inr (n + 2), True)))
             else Some (Inr (n + 1), False))
      else Some (Inr n, False))"

text \<open>
  \<^verbatim>\<open>[...(config?.fromAddresses || []), `verify@${domain}`, `postmaster@${domain}`,
  `check@${domain}`]\<close>
\<close>

definition senderAddresses :: "provider_config option \<Rightarrow> string \<Rightarrow> string list" where
  "senderAddresses config domain =
     (case config of None \<Rightarrow> []
      | Some c \<Rightarrow> (case fromAddresses c of None \<Rightarrow> [] | Some as \<Rightarrow> as))
     @ [''verify@'' @ domain, ''postmaster@'' @ domain, ''check@'' @ domain]"

text \<open>The MAIL FROM loop: the command counter and \<open>mailFromSuccess\<close>.\<close>

fun mailFromLoop :: "smtp_env \<Rightarrow> nat \<Rightarrow> string list \<Rightarrow> nat \<times> bool" where
  "mailFromLoop env n [] = (n, False)"
| "mailFromLoop env n (fromAddress # rest) =
     (case command env n (Some (''MAIL FROM:<'' @ fromAddress @ ''>'')) of
        Inl e \<Rightarrow> mailFromLoop env (n + 1) rest
      | Inr r \<Rightarrow> if code r = 250 then (n + 1, True) else mailFromLoop env (n + 1) rest)"

text \<open>The two objects \<open>verifyMailbox\<close> returns.\<close>

definition probeFailed :: "bool \<Rightarrow> string \<Rightarrow> smtp_result" where
  "probeFailed tls err =
     \<lparr>success = False, mailboxExists = False, supportsTLS = Some tls,
      replyCode = None, replyMessage = None, error = Some err, protected = False\<rparr>"

definition probeCompleted :: "bool \<Rightarrow> smtp_response \<Rightarrow> smtp_result" where
  "probeCompleted tls rcptResponse =
     \<lparr>success = True, mailboxExists = (code rcptResponse = 250), supportsTLS = Some tls,
      replyCode = Some (code rcptResponse), replyMessage = Some (message rcptResponse),
      error = None, protected = False\<rparr>"

text \<open>
  From sender negotiation to the end of the \<open>try\<close> block, with the command counter \<open>n\<close>
  and the value \<open>tls\<close> of \<open>supportsTLS\<close>.
\<close>

definition probeRecipient :: "smtp_env \<Rightarrow> nat \<Rightarrow> bool \<Rightarrow> string \<Rightarrow> string
    \<Rightarrow> provider_config option \<Rightarrow> smtp_result" where
  "probeRecipient env n tls email domain config =
     (case mailFromLoop env n (senderAddresses config domain) of
        (n', mailFromSuccess) \<Rightarrow>
          if \<not> mailFromSuccess then probeFailed tls ''MAIL FROM command failed''
          else (case command env n' (Some (''RCPT TO:<'' @ email @ ''>'')) of
                  Inl e \<Rightarrow> probeFailed tls e
                | Inr rcptResponse \<Rightarrow> probeCompleted tls rcptResponse))"

text \<open>
  Connecting, the greeting and the EHLO/HELO negotiation: the error thrown, or the
  command counter and \<open>ehloResponse\<close>.
\<close>

definition greetAndHello :: "smtp_env \<Rightarrow> string \<Rightarrow> string \<Rightarrow> provider_config option
    \<Rightarrow> string + nat \<times> smtp_response" where
  "greetAndHello env host domain config =
     (case connect_error env of
        Some e \<Rightarrow> Inl e
      | None \<Rightarrow>
         (case command env 0 None of
            Inl e \<Rightarrow> Inl e
          | Inr greeting \<Rightarrow>
              if code greeting \<noteq> 220 then Inl ''Invalid server greeting''
              else
                (case ehloLoop env 1 (heloHosts config domain host) None of
                   (n, ehloSuccess, ehloResponse) \<Rightarrow>
                     if \<not> ehloSuccess then Inl ''HELO/EHLO failed''
                     else
                       (case ehloResponse of
                          None \<Rightarrow> Inl ''Cannot read properties of null''
                        | Some r \<Rightarrow> Inr (n, r)))))"

text \<open>
  \<open>verifyMailbox\<close>: every exception of the \<open>try\<close> block becomes the failure object of the
  \<open>catch\<close>; \<open>cleanup\<close> in the \<open>finally\<close> swallows its own errors and changes no result.
  While \<open>upgradeToTLS\<close> is pending neither the \<open>catch\<close> nor the \<open>finally\<close> runs.
\<close>

definition verifyMailbox :: "smtp_env \<Rightarrow> string \<Rightarrow> string \<Rightarrow> string
    \<Rightarrow> provider_config option \<Rightarrow> smtp_result option" where
  "verifyMailbox env host email domain config =
     (case greetAndHello env host domain config of
        Inl e \<Rightarrow> Some (probeFailed False e)
      | Inr (n, ehloResponse) \<Rightarrow>
          (case startTLS env n config (heloHosts config domain host) ehloResponse of
             None \<Rightarrow> None
           | Some (Inl e, tls) \<Rightarrow> Some (probeFailed tls e)
           | Some (Inr n', tls) \<Rightarrow> Some (probeRecipient env n' tls email domain config)))"

text \<open>
  The upgrade fails: the session is not encrypted after the STARTTLS command, and the
  code knows it. The command is rejected, or the server answers it with a code other
  than 220, or \<open>upgradeToTLS\<close> is rejected. \<open>n\<close> is the command counter at the STARTTLS block.
\<close>

definition upgradeFails :: "smtp_env \<Rightarrow> nat \<Rightarrow> bool" where
  "upgradeFails env n =
     (case command env n (Some ''STARTTLS'') of
        Inl e \<Rightarrow> True
      | Inr tlsCmd \<Rightarrow>
          if code tlsCmd = 220
          then (case handshake env of HandshakeFailed e \<Rightarrow> True | _ \<Rightarrow> False)
          else True)"

text \<open>
  The failures that reach the \<open>catch\<close> of the STARTTLS block as an exception of the
  first two awaits: a rejected STARTTLS command and a rejected \<open>upgradeToTLS\<close>.
\<close>

definition upgradeThrows :: "smtp_env \<Rightarrow> nat \<Rightarrow> bool" where
  "upgradeThrows env n =
     (case command env n (Some ''STARTTLS'') of
        Inl e \<Rightarrow> True
      | Inr tlsCmd \<Rightarrow>
          code tlsCmd = 220
          \<and> (case handshake env of HandshakeFailed e \<Rightarrow> True | _ \<Rightarrow> False))"

section \<open>Retry controller (providers.js)\<close>

text \<open>
  What the network does during one attempt of \<open>performSMTPCheck\<close>: whether the
  connection test is rejected, and the connection of \<open>verifyMailbox\<close>.
\<close>

record attempt_env =
  preconnect_error :: "string option"
  session :: smtp_env

definition definitive :: "smtp_result \<Rightarrow> bool \<Rightarrow> nat \<Rightarrow> string option \<Rightarrow> bool \<Rightarrow> smtp_result" where
  "definitive result exists c msg prot =
     \<lparr>success = True, mailboxExists = exists, supportsTLS = supportsTLS result,
      replyCode = Some c, replyMessage = msg, error = None, protected = prot\<rparr>"

text \<open>
  The retry loop from \<open>attempt\<close> on. Beside the returned object the model returns the
  number of attempts that were started when the function returns. The loop awaits
  \<open>verifyMailbox\<close> without a timer of its own.
\<close>

function smtpAttempts :: "provider_config \<Rightarrow> (nat \<Rightarrow> attempt_env) \<Rightarrow> string \<Rightarrow> string
    \<Rightarrow> string \<Rightarrow> nat \<Rightarrow> string option \<Rightarrow> (smtp_result \<times> nat) option" where
  "smtpAttempts config net mxServer email domain attempt lastError =
     (if attempt < retryAttempts config then
        (case preconnect_error (net attempt) of
           Some e \<Rightarrow> smtpAttempts config net mxServer email domain (attempt + 1) (Some e)
         | None \<Rightarrow>
            (case verifyMailbox (session (net attempt)) mxServer email domain (Some config) of
               None \<Rightarrow> None
             | Some result \<Rightarrow>
                (case (if success result then replyCode result else None) of
                   None \<Rightarrow>
                     smtpAttempts config net mxServer email domain (attempt + 1)
                       (Some (js_or (error result) ''Ambiguous server response''))
                 | Some c \<Rightarrow>
                     if c \<in> set (acceptCodes config) then
                       Some (definitive result True c (replyMessage result) False, attempt + 1)
                     else if c \<in> set (rejectCodes config) then
                       Some (definitive result False c (replyMessage result) False, attempt + 1)
                     else if \<not> reliable config
                          \<and> (case tempCodes config of None \<Rightarrow> False
                             | Some ts \<Rightarrow> c \<in> set ts) then
                       Some (definitive result True c (Some ''Server employs protection measures'')
                               True,
                             attempt + 1)
                     else
                       smtpAttempts config net mxServer email domain (attempt + 1)
                         (Some (js_or (error result) ''Ambiguous server response'')))))
      else
        Some (\<lparr>success = False, mailboxExists = False, supportsTLS = None, replyCode = None,
               replyMessage = None,
               error = Some (js_or lastError ''Maximum retry attempts exceeded''),
               protected = False\<rparr>,
              attempt))"
  by pat_completeness auto
termination
  by (relation "measure (\<lambda>(config, net, mxServer, email, domain, attempt, lastError).
        retryAttempts config - attempt)") auto

declare smtpAttempts.simps [simp del]

text \<open>
  \<open>performSMTPCheck\<close>: \<open>Inl\<close> would be an exception leaving the function; every
  exception inside the loop is caught there.
\<close>

definition performSMTPCheck :: "(nat \<Rightarrow> attempt_env) \<Rightarrow> string \<Rightarrow> string \<Rightarrow> string
    \<Rightarrow> provider_config option \<Rightarrow> (string + smtp_result \<times> nat) option" where
  "performSMTPCheck net mxServer email domain providerConfig =
     (let config = (case providerConfig of Some c \<Rightarrow> c | None \<Rightarrow> getProviderConfig domain)
      in map_option Inr (smtpAttempts config net mxServer email domain 0 None))"

section \<open>Validation pipeline (email.js)\<close>

text \<open>The value a caller passes as \<open>email\<close>: a string, or any other JSON value.\<close>

datatype js_value = JUndefined | JNull | JBool bool | JNum int | JStr string | JObj

text \<open>
  \<^verbatim>\<open>/^[a-zA-Z0-9](?:[a-zA-Z0-9._%+-]{0,61}[a-zA-Z0-9])?@[a-zA-Z0-9](?:[a-zA-Z0-9-]*[a-zA-Z0-9])?(?:\.[a-zA-Z]{2,})+$/\<close>
\<close>

definition localRegex :: rx where
  "localRegex =
     Seq (Cls alnum)
       (Opt (Seq (upto_times 61 (Cls (\<lambda>c. alnum c \<or> c \<in> set ''._%+-''))) (Cls alnum)))"

definition domainRegex :: rx where
  "domainRegex =
     Seq (Cls alnum)
       (Seq (Opt (Seq (Star (Cls (\<lambda>c. alnum c \<or> c = CHR ''-''))) (Cls alnum)))
            (Plus (Seq (Chr CHR ''.'') (Seq (Cls alpha) (Seq (Cls alpha) (Star (Cls alpha)))))))"

definition emailRegex :: rx where
  "emailRegex = Seq localRegex (Seq (Chr CHR ''@'') domainRegex)"

definition validateEmailFormat :: "js_value \<Rightarrow> bool" where
  "validateEmailFormat v =
     (case v of JStr s \<Rightarrow> s \<noteq> [] \<and> test_full emailRegex s | _ \<Rightarrow> False)"

record mx_record =
  exchange :: string
  priority :: int

text \<open>
  What the resolver and the mail servers do during one validation. A lookup is
  fulfilled or rejected; \<open>smtp_net i k\<close> is the network during attempt \<open>k\<close> against the
  \<open>i\<close>-th mail server of the sorted list.
\<close>

record validation_env =
  resolve_A :: "string \<Rightarrow> bool"
  resolve_AAAA :: "string \<Rightarrow> bool"
  resolve_CNAME :: "string \<Rightarrow> bool"
  resolveMx :: "string \<Rightarrow> string + mx_record list"
  resolveTxt :: "string \<Rightarrow> string + string list list"
  smtp_net :: "nat \<Rightarrow> nat \<Rightarrow> attempt_env"

definition checkDNS :: "validation_env \<Rightarrow> string \<Rightarrow> bool" where
  "checkDNS env domain =
     list_ex (\<lambda>fulfilled. fulfilled)
       [resolve_A env domain, resolve_AAAA env domain, resolve_CNAME env domain]"

text \<open>
  \<open>checkMX\<close>: \<open>None\<close> is the \<open>false\<close> of the source. \<open>Array.prototype.sort\<close> is stable,
  as \<open>sort_key\<close> is.
\<close>

definition checkMX :: "validation_env \<Rightarrow> string \<Rightarrow> mx_record list option" where
  "checkMX env domain =
     (case resolveMx env domain of
        Inl e \<Rightarrow> None
      | Inr records \<Rightarrow> if records = [] then None else Some (sort_key priority records))"

definition checkSPF :: "validation_env \<Rightarrow> string \<Rightarrow> bool \<times> string option" where
  "checkSPF env domain =
     (case resolveTxt env domain of
        Inl e \<Rightarrow> (False, None)
      | Inr txtRecords \<Rightarrow>
          (case find (\<lambda>r. startsWith r ''v=spf1'') (concat txtRecords) of
             None \<Rightarrow> (False, None)
           | Some spfRecord \<Rightarrow> (spfRecord \<noteq> [], Some spfRecord)))"

record check_flags =
  format :: bool
  dns :: bool
  mx :: bool
  spf :: bool
  smtp :: bool
  mailbox :: bool

record result_details =
  mxRecords :: "mx_record list"
  spfRecord :: "string option"
  smtpResponse :: "smtp_result option"

record email_result =
  email :: js_value
  valid :: bool
  checks :: check_flags
  details :: result_details
  reason :: string

definition initialResult :: "js_value \<Rightarrow> email_result" where
  "initialResult v =
     \<lparr>email = v, valid = False,
      checks = \<lparr>format = False, dns = False, mx = False, spf = False, smtp = False,
                mailbox = False\<rparr>,
      details = \<lparr>mxRecords = [], spfRecord = None, smtpResponse = None\<rparr>,
      reason = []\<rparr>"

text \<open>
  The loop over the mail servers, from the \<open>i\<close>-th on: the result object and
  \<open>lastError\<close>. An exception of \<open>performSMTPCheck\<close> is caught and the loop goes on.
\<close>

fun mxLoop :: "validation_env \<Rightarrow> string \<Rightarrow> string \<Rightarrow> provider_config \<Rightarrow> nat
    \<Rightarrow> mx_record list \<Rightarrow> email_result \<Rightarrow> string option
    \<Rightarrow> (email_result \<times> string option) option" where
  "mxLoop env addr domain providerConfig i [] result lastError = Some (result, lastError)"
| "mxLoop env addr domain providerConfig i (m # rest) result lastError =
     (case performSMTPCheck (smtp_net env i) (exchange m) addr domain (Some providerConfig) of
        None \<Rightarrow> None
      | Some (Inl e) \<Rightarrow> mxLoop env addr domain providerConfig (i + 1) rest result (Some e)
      | Some (Inr (smtpResult, started)) \<Rightarrow>
          (let result = result\<lparr>details := (details result)\<lparr>smtpResponse := Some smtpResult\<rparr>\<rparr>
           in if success smtpResult then
                Some (result\<lparr>checks := (checks result)\<lparr>smtp := True,
                                                         mailbox := mailboxExists smtpResult\<rparr>\<rparr>,
                      lastError)
              else mxLoop env addr domain providerConfig (i + 1) rest result (error smtpResult)))"

text \<open>The verdict and the reason string, lines 139 to 159.\<close>

definition conclude :: "email_result \<Rightarrow> string option \<Rightarrow> email_result" where
  "conclude result lastError =
     (let c = checks result;
          result = result\<lparr>valid := (format c \<and> dns c \<and> mx c \<and> mailbox c)\<rparr>
      in if \<not> valid result then
           (if \<not> mailbox c then result\<lparr>reason := ''Mailbox does not exist''\<rparr>
            else if \<not> smtp c then
              result\<lparr>reason := ''SMTP verification failed: '' @ js_or lastError ''Unknown error''\<rparr>
            else if \<not> mx c then result\<lparr>reason := ''No mail servers found for domain''\<rparr>
            else if \<not> dns c then result\<lparr>reason := ''Domain does not exist''\<rparr>
            else result\<lparr>reason := ''One or more validation checks failed''\<rparr>)
         else result\<lparr>reason := ''Email verified successfully''\<rparr>)"

text \<open>Steps 2 to 5 for a string \<open>addr\<close> with the domain \<open>domain\<close>.\<close>

definition lookupAndProbe :: "validation_env \<Rightarrow> email_result \<Rightarrow> string \<Rightarrow> string
    \<Rightarrow> email_result option" where
  "lookupAndProbe env result addr domain =
     (let result = result\<lparr>checks := (checks result)\<lparr>dns := checkDNS env domain\<rparr>\<rparr>
      in if \<not> dns (checks result) then Some (result\<lparr>reason := ''Domain does not exist''\<rparr>)
         else
           (case checkMX env domain of
              None \<Rightarrow> Some (result\<lparr>reason := ''No mail servers found for domain''\<rparr>)
            | Some records \<Rightarrow>
                (let result = result\<lparr>checks := (checks result)\<lparr>mx := True\<rparr>,
                                     details := (details result)\<lparr>mxRecords := records\<rparr>\<rparr>;
                     spfResult = checkSPF env domain;
                     result = result\<lparr>checks := (checks result)\<lparr>spf := fst spfResult\<rparr>,
                                     details := (details result)\<lparr>spfRecord := snd spfResult\<rparr>\<rparr>;
                     providerConfig = getProviderConfig domain
                 in case mxLoop env addr domain providerConfig 0 records result None of
                      None \<Rightarrow> None
                    | Some (result, lastError) \<Rightarrow> Some (conclude result lastError))))"

text \<open>
  \<open>validateEmail\<close>: \<open>None\<close> is the promise that never settles, \<open>Inl\<close> is an exception
  leaving the function. Outside a \<open>try\<close> are the call of \<open>split\<close> on a value that is not
  a string and the \<open>length\<close> of an undefined part of the split.
\<close>

definition validateEmail :: "validation_env \<Rightarrow> js_value \<Rightarrow> (string + email_result) option" where
  "validateEmail env v =
     (let result = initialResult v;
          result = result\<lparr>checks := (checks result)\<lparr>format := validateEmailFormat v\<rparr>\<rparr>
      in if \<not> format (checks result) then
           Some (Inr (result\<lparr>reason := ''Invalid email format''\<rparr>))
         else
           (case v of
              JStr addr \<Rightarrow>
                (case js_split ''@'' addr of
                   [] \<Rightarrow> Some (Inl ''TypeError: Cannot read properties of undefined'')
                 | localPart # parts \<Rightarrow>
                     if length localPart > 64 then
                       Some (Inr (result\<lparr>reason := ''Local part exceeds maximum length''\<rparr>))
                     else
                       (case parts of
                          [] \<Rightarrow> Some (Inl ''TypeError: Cannot read properties of undefined'')
                        | domain # _ \<Rightarrow>
                            if length domain > 255 then
                              Some (Inr (result\<lparr>reason := ''Domain exceeds maximum length''\<rparr>))
                            else map_option Inr (lookupAndProbe env result addr domain)))
            | _ \<Rightarrow> Some (Inl ''TypeError: email.split is not a function'')))"

section \<open>Batch processor (routes/validation.js)\<close>

text \<open>
  A parsed row: the properties of the object the parser builds, in the order of the
  columns, one value for each column name.
\<close>

type_synonym csv_record = "(string \<times> string) list"

text \<open>
  \<open>Object.keys\<close>: the names that are array indices (a canonical numeral below
  \<open>2\<^sup>3\<^sup>2 - 1\<close>) come first, in ascending numeric order, then the other names in the
  order in which they were created.
\<close>

definition arrayIndex :: "string \<Rightarrow> nat option" where
  "arrayIndex k =
     (if list_all digit k
         \<and> (case k of [] \<Rightarrow> False | c # cs \<Rightarrow> if cs = [] then True else c \<noteq> CHR ''0'')
      then
        (let n = foldl (\<lambda>a c. 10 * a + digit_val c) 0 k
         in if n < 4294967295 then Some n else None)
      else None)"

definition objectKeys :: "csv_record \<Rightarrow> string list" where
  "objectKeys r =
     map snd (sort_key fst
                (List.map_filter (\<lambda>k. map_option (\<lambda>n. (n, k)) (arrayIndex k)) (map fst r)))
     @ filter (\<lambda>k. arrayIndex k = None) (map fst r)"

record augmented_record =
  columns :: csv_record
  validation_result :: string
  validation_reason :: string
  mx_check :: bool
  dns_check :: bool
  spf_check :: bool
  mailbox_check :: bool
  smtp_check :: bool

datatype event =
    InitEvent nat "string list"
  | ProgressEvent real "augmented_record list"
  | ErrorEvent string
  | CompleteEvent

text \<open>What \<open>res.write\<close> sends: an event, or a comment line of the event stream.\<close>

datatype sse = Data event | Comment string

text \<open>\<^verbatim>\<open>record.email || record.Email || record.EMAIL\<close>\<close>

definition emailField :: "csv_record \<Rightarrow> string option" where
  "emailField r =
     find (\<lambda>x. x \<noteq> []) (List.map_filter (map_of r) [''email'', ''Email'', ''EMAIL''])"

definition failedRecord :: "csv_record \<Rightarrow> string \<Rightarrow> augmented_record" where
  "failedRecord r why =
     \<lparr>columns = r, validation_result = ''Invalid'', validation_reason = why,
      mx_check = False, dns_check = False, spf_check = False, mailbox_check = False,
      smtp_check = False\<rparr>"

text \<open>
  \<open>processChunk\<close>, given the outcome \<open>validate\<close> of \<open>validateEmail\<close> on each address:
  fulfilled, rejected, or pending for ever (\<open>None\<close>). The handler awaits \<open>validateEmail\<close>
  without a timer. The promises of one group settle in any order; \<open>Promise.all\<close> keeps
  the order of the group, and it stays pending when one of them does, as none is
  rejected.
\<close>

definition processRecord :: "(string \<Rightarrow> (string + email_result) option) \<Rightarrow> csv_record
    \<Rightarrow> augmented_record option" where
  "processRecord validate r =
     (case emailField r of
        None \<Rightarrow> Some (failedRecord r ''No email address found'')
      | Some addr \<Rightarrow>
          (case validate addr of
             None \<Rightarrow> None
           | Some (Inl e) \<Rightarrow>
               Some (failedRecord r (''Processing error: '' @ js_or (Some e) ''Unknown error''))
           | Some (Inr validationResult) \<Rightarrow>
               Some \<lparr>columns = r,
                 validation_result = (if valid validationResult then ''Valid'' else ''Invalid''),
                 validation_reason =
                   js_or (Some (reason validationResult)) ''Unknown validation status'',
                 mx_check = mx (checks validationResult),
                 dns_check = dns (checks validationResult),
                 spf_check = spf (checks validationResult),
                 mailbox_check = mailbox (checks validationResult),
                 smtp_check = smtp (checks validationResult)\<rparr>))"

fun promiseAll :: "'a option list \<Rightarrow> 'a list option" where
  "promiseAll [] = Some []"
| "promiseAll (p # ps) =
     (case p of
        None \<Rightarrow> None
      | Some x \<Rightarrow> (case promiseAll ps of None \<Rightarrow> None | Some xs \<Rightarrow> Some (x # xs)))"

definition processChunk :: "(string \<Rightarrow> (string + email_result) option) \<Rightarrow> csv_record list
    \<Rightarrow> augmented_record list option" where
  "processChunk validate records = promiseAll (map (processRecord validate) records)"

definition CHUNK_SIZE :: nat where "CHUNK_SIZE = 5"

text \<open>
  The second pass: the \<open>data\<close> handler on each row and the \<open>end\<close> handler after the
  last, with \<open>currentChunk\<close> and \<open>processedCount\<close>. The parser is paused while a group is
  processed, so the handlers run one after the other. The percentage is the exact
  quotient; the rounding of the floating-point operations is monotone. Nothing inside
  the two \<open>try\<close> blocks of the handlers throws: \<open>processChunk\<close> catches per row, and
  \<open>res.write\<close> of a string does not throw. The function returns what is written to the
  response and whether the promise of the pass is resolved: while \<open>processChunk\<close> is
  pending the parser stays paused (or the \<open>end\<close> handler stays at its \<open>await\<close>), nothing
  more is written and \<open>resolve\<close> is not called.
\<close>

fun secondPass :: "(string \<Rightarrow> (string + email_result) option) \<Rightarrow> nat \<Rightarrow> csv_record list
    \<Rightarrow> csv_record list \<Rightarrow> nat \<Rightarrow> sse list \<times> bool" where
  "secondPass validate totalRecords [] currentChunk processedCount =
     (if length currentChunk > 0 then
        (case processChunk validate currentChunk of
           None \<Rightarrow> ([], False)
         | Some results \<Rightarrow> ([Data (ProgressEvent 100 results), Data CompleteEvent], True))
      else ([Data CompleteEvent], True))"
| "secondPass validate totalRecords (r # rest) currentChunk processedCount =
     (let currentChunk = currentChunk @ [r] in
      if length currentChunk \<ge> CHUNK_SIZE then
        (case processChunk validate currentChunk of
           None \<Rightarrow> ([], False)
         | Some results \<Rightarrow>
             (let processedCount = processedCount + length results in
              case secondPass validate totalRecords rest [] processedCount of
                (written, resolved) \<Rightarrow>
                  (Data (ProgressEvent (real processedCount / real totalRecords * 100) results)
                   # Comment ''keepalive'' # written,
                   resolved)))
      else secondPass validate totalRecords rest currentChunk processedCount)"

text \<open>
  The uploaded file as the parser reads it, in both passes: its rows, and the error the
  parser ends with, if any.
\<close>

record csv_source =
  rows :: "csv_record list"
  parse_error :: "string option"

definition errorMessage :: "bool \<Rightarrow> string \<Rightarrow> string" where
  "errorMessage production msg = (if production then ''Failed to process CSV file'' else msg)"

text \<open>
  The handler of \<open>/validate/bulk\<close> once a file is there: everything it writes to the
  response, and whether it reaches \<open>res.end()\<close>. \<open>production\<close> is
  \<^verbatim>\<open>NODE_ENV === 'production'\<close>.
\<close>

definition bulkValidate :: "bool \<Rightarrow> (string \<Rightarrow> (string + email_result) option) \<Rightarrow> csv_source
    \<Rightarrow> sse list \<times> bool" where
  "bulkValidate production validate src =
     (case parse_error src of
        Some e \<Rightarrow> ([Data (ErrorEvent (errorMessage production e))], True)
      | None \<Rightarrow>
          (let totalRecords = length (rows src);
               headers = (case rows src of [] \<Rightarrow> [] | r # _ \<Rightarrow> objectKeys r)
           in if totalRecords = 0 then
                ([Data (ErrorEvent (errorMessage production ''CSV file is empty''))], True)
              else
                (case secondPass validate totalRecords (rows src) [] 0 of
                   (written, resolved) \<Rightarrow>
                     (Data (InitEvent totalRecords
                        (headers @ [''validation_result'', ''validation_reason'', ''mx_check'',
                                    ''dns_check'', ''spf_check'', ''mailbox_check'',
                                    ''smtp_check'']))
                      # written,
                      resolved))))"

text \<open>The events of a response and the percentages of its progress events, in order.\<close>

definition events :: "sse list \<Rightarrow> event list" where
  "events ws = List.map_filter (\<lambda>w. case w of Data e \<Rightarrow> Some e | Comment _ \<Rightarrow> None) ws"

definition percentages :: "event list \<Rightarrow> real list" where
  "percentages es = List.map_filter (\<lambda>e. case e of ProgressEvent p _ \<Rightarrow> Some p | _ \<Rightarrow> None) es"

section \<open>Example networks\<close>

text \<open>
  A scripted network: the \<open>n\<close>-th command receives the \<open>n\<close>-th list of deliveries of the
  script, and nothing once the script is used up.
\<close>

definition scripted :: "string list list \<Rightarrow> smtp_env" where
  "scripted script =
     \<lparr>connect_error = None, write_error = (\<lambda>_. None),
      deliveries = (\<lambda>n. if n < length script then script ! n else []), handshake = Upgraded\<rparr>"

text \<open>One delivery that holds one line.\<close>

definition reply :: "string \<Rightarrow> string list" where
  "reply s = [s @ [CR, LF]]"

text \<open>A server without STARTTLS that answers RCPT TO with the given line.\<close>

definition plainSession :: "string \<Rightarrow> smtp_env" where
  "plainSession rcptLine =
     scripted [reply ''220 hi'', reply ''250 ok'', reply ''250 ok'', reply rcptLine]"

text \<open>The answer to EHLO of a server that advertises STARTTLS.\<close>

definition advertisement :: string where
  "advertisement = ''250-ok'' @ [CR, LF] @ ''250 STARTTLS'' @ [CR, LF]"

definition advertising :: "string list" where
  "advertising = [advertisement]"

text \<open>
  A server that advertises STARTTLS and answers the command with 220; the handshake
  fails, and nothing arrives on the socket afterwards.
\<close>

definition tlsSession :: smtp_env where
  "tlsSession =
     (scripted [reply ''220 hi'', advertising, reply ''220 go''])
       \<lparr>handshake := HandshakeFailed ''handshake failed''\<rparr>"

text \<open>
  A server that advertises STARTTLS and answers the command with 454; the session
  goes on unencrypted and the server accepts sender and recipient.
\<close>

definition refusingSession :: smtp_env where
  "refusingSession =
     scripted [reply ''220 hi'', advertising, reply ''454 no'', reply ''250 ok'',
               reply ''250 ok'']"

text \<open>
  A server that advertises STARTTLS, answers the command with 220 and is silent from
  then on: the handshake neither completes nor fails.
\<close>

definition silentSession :: smtp_env where
  "silentSession =
     (scripted [reply ''220 hi'', advertising, reply ''220 go''])
       \<lparr>handshake := HandshakePending\<rparr>"

text \<open>
  A server whose answer to EHLO arrives in two reads, the first of which ends inside
  the first line.
\<close>

definition fragments :: "string list" where
  "fragments = [''250'', ''-STARTTLS'' @ [CR, LF] @ ''250 ok'' @ [CR, LF]]"

definition fragmentedSession :: smtp_env where
  "fragmentedSession = scripted [reply ''220 hi'', fragments]"

definition answering :: "string \<Rightarrow> nat \<Rightarrow> attempt_env" where
  "answering rcptLine k = \<lparr>preconnect_error = None, session = plainSession rcptLine\<rparr>"

text \<open>A policy that lists 250 among its accept codes and among its reject codes.\<close>

definition overlapConfig :: provider_config where
  "overlapConfig = genericConfig\<lparr>rejectCodes := [250, 550]\<rparr>"

text \<open>
  A resolver and mail server for examples: the domain has an A record and one MX
  record, the TXT lookup fails, and the mail server accepts the recipient.
\<close>

definition exampleEnv :: validation_env where
  "exampleEnv =
     \<lparr>resolve_A = (\<lambda>_. True), resolve_AAAA = (\<lambda>_. False), resolve_CNAME = (\<lambda>_. False),
      resolveMx = (\<lambda>_. Inr [\<lparr>exchange = ''m'', priority = 10\<rparr>]),
      resolveTxt = (\<lambda>_. Inl ''ENODATA''),
      smtp_net = (\<lambda>i. answering ''250 ok'')\<rparr>"

text \<open>The same resolver, with the silent mail server.\<close>

definition silentEnv :: validation_env where
  "silentEnv =
     exampleEnv\<lparr>smtp_net := (\<lambda>i k. \<lparr>preconnect_error = None, session = silentSession\<rparr>)\<rparr>"

definition exampleResult :: email_result where
  "exampleResult =
     \<lparr>email = JStr ''a@b.co'', valid = True,
      checks = \<lparr>format = True, dns = True, mx = True, spf = False, smtp = True,
                mailbox = True\<rparr>,
      details = \<lparr>mxRecords = [\<lparr>exchange = ''m'', priority = 10\<rparr>], spfRecord = None,
                 smtpResponse = Some \<lparr>success = True, mailboxExists = True,
                    supportsTLS = Some False, replyCode = Some 250,
                    replyMessage = Some ''ok'', error = None, protected = False\<rparr>\<rparr>,
      reason = ''Email verified successfully''\<rparr>"

text \<open>An upload of six rows, an upload without rows, and an upload of one row.\<close>

definition sixRows :: csv_source where
  "sixRows = \<lparr>rows = replicate 6 [(''email'', ''a@b.co'')], parse_error = None\<rparr>"

definition noRows :: csv_source where
  "noRows = \<lparr>rows = [], parse_error = None\<rparr>"

definition oneRow :: csv_source where
  "oneRow = \<lparr>rows = [[(''email'', ''a@b.co'')]], parse_error = None\<rparr>"

text \<open>An address whose local part has 64 characters.\<close>

definition local64 :: string where
  "local64 = replicate 64 CHR ''a'' @ ''@example.com''"

text \<open>A domain of 256 characters.\<close>

definition domain256 :: string where
  "domain256 = replicate 252 CHR ''a'' @ ''.com''"

text \<open>The result object once the format check has passed.\<close>

definition formatPassed :: "js_value \<Rightarrow> email_result" where
  "formatPassed v = (initialResult v)\<lparr>checks := (checks (initialResult v))\<lparr>format := True\<rparr>\<rparr>"

text \<open>The result object after the DNS, MX and SPF steps, before the loop over the mail servers.\<close>

definition afterLookups :: "validation_env \<Rightarrow> email_result \<Rightarrow> string \<Rightarrow> mx_record list
    \<Rightarrow> email_result" where
  "afterLookups e res d records =
     res\<lparr>checks := (checks res)\<lparr>dns := True, mx := True, spf := fst (checkSPF e d)\<rparr>,
         details := (details res)\<lparr>mxRecords := records, spfRecord := snd (checkSPF e d)\<rparr>\<rparr>"

section \<open>Properties of the regular expressions\<close>

lemma complete_line_terminating: "complete_line l \<Longrightarrow> terminating_line l"
  unfolding complete_line_def terminating_line_def reply_line_def continuation_line_def
    test_full_def test_prefix_def replyRegex_def continuationRegex_def Opt_def Chr_def
  by (auto split: list.splits if_splits)

lemma complete_line_parseInt: "complete_line l \<Longrightarrow> \<exists>n. parseInt (take 3 l) = Some n"
  unfolding complete_line_def test_full_def replyRegex_def parseInt_def
  by (auto split: list.splits if_splits)

lemma iterate_rems_sound:
  assumes f: "\<And>s t. t \<in> set (f s) \<Longrightarrow> \<exists>w \<in> L. s = w @ t"
  shows "t \<in> set (iterate_rems f k s) \<Longrightarrow> \<exists>w \<in> iter L. s = w @ t"
proof (induction k arbitrary: s t)
  case 0
  then show ?case by (auto intro: iter_Nil)
next
  case (Suc k)
  from Suc.prems consider "t = s"
    | u where "u \<in> set (f s)" "t \<in> set (iterate_rems f k u)"
    by auto
  then show ?case
  proof cases
    case 1
    then show ?thesis by (auto intro: iter_Nil)
  next
    case 2
    from f[OF 2(1)] obtain w where w: "w \<in> L" "s = w @ u" by blast
    from Suc.IH[OF 2(2)] obtain w' where w': "w' \<in> iter L" "u = w' @ t" by blast
    from w w' have "w @ w' \<in> iter L" "s = (w @ w') @ t" by (auto intro: iter_App)
    then show ?thesis by blast
  qed
qed

lemma rems_sound: "t \<in> set (rems r s) \<Longrightarrow> \<exists>w \<in> lang r. s = w @ t"
proof (induction r arbitrary: s t)
  case (Cls P)
  then show ?case by (auto split: list.splits if_splits)
next
  case Eps
  then show ?case by simp
next
  case (Seq a b)
  from Seq.prems obtain u where u: "u \<in> set (rems a s)" "t \<in> set (rems b u)" by auto
  from Seq.IH(1)[OF u(1)] obtain w where w: "w \<in> lang a" "s = w @ u" by blast
  from Seq.IH(2)[OF u(2)] obtain w' where w': "w' \<in> lang b" "u = w' @ t" by blast
  from w w' have "w @ w' \<in> lang (Seq a b)" "s = (w @ w') @ t" by auto
  then show ?case by blast
next
  case (Alt a b)
  then show ?case by fastforce
next
  case (Star a)
  then show ?case
    using iterate_rems_sound[of "rems a" "lang a" t "length s" s] by auto
qed

lemma test_full_lang: "test_full r s \<Longrightarrow> s \<in> lang r"
  using rems_sound[of "[]" r s] by (auto simp: test_full_def)

lemma iter_alphabet: "w \<in> iter L \<Longrightarrow> (\<And>u. u \<in> L \<Longrightarrow> set u \<subseteq> A) \<Longrightarrow> set w \<subseteq> A"
  by (induction rule: iter.induct) auto

lemma lang_alphabet: "w \<in> lang r \<Longrightarrow> set w \<subseteq> alphabet r"
proof (induction r arbitrary: w)
  case (Seq a b)
  from Seq.prems obtain u v where "w = u @ v" "u \<in> lang a" "v \<in> lang b" by auto
  with Seq.IH show ?case by fastforce
next
  case (Star a)
  then show ?case using iter_alphabet[of w "lang a" "alphabet a"] by auto
qed auto

lemma alphabet_upto_times: "alphabet (upto_times n r) \<subseteq> alphabet r"
  by (induction n) (auto simp: Opt_def)

lemma lang_upto_times: "w \<in> lang (upto_times n (Cls P)) \<Longrightarrow> length w \<le> n"
  by (induction n arbitrary: w) (auto simp: Opt_def)

lemma at_not_alnum: "\<not> alnum CHR ''@''" "\<not> alpha CHR ''@''"
  by (simp_all add: alnum_def alpha_def in_range_def)

lemma lang_localRegex:
  assumes "w \<in> lang localRegex"
  shows "length w \<le> 63" "CHR ''@'' \<notin> set w"
proof -
  from assms show "length w \<le> 63"
    by (auto simp: localRegex_def Opt_def dest!: lang_upto_times)
  have "set w \<subseteq> {c. alnum c \<or> c \<in> set ''._%+-''}"
    using lang_alphabet[OF assms]
      alphabet_upto_times[of 61 "Cls (\<lambda>c. alnum c \<or> c \<in> set ''._%+-'')"]
    unfolding localRegex_def Opt_def by auto
  moreover have "CHR ''@'' \<notin> {c. alnum c \<or> c \<in> set ''._%+-''}"
    by (simp add: at_not_alnum)
  ultimately show "CHR ''@'' \<notin> set w" by blast
qed

lemma lang_domainRegex:
  assumes "w \<in> lang domainRegex"
  shows "CHR ''@'' \<notin> set w"
  using lang_alphabet[OF assms]
  by (auto simp: domainRegex_def Opt_def Plus_def Chr_def at_not_alnum)

lemma emailRegex_shape:
  assumes "test_full emailRegex s"
  shows "\<exists>l d. s = l @ CHR ''@'' # d \<and> length l \<le> 63 \<and> CHR ''@'' \<notin> set l \<and> CHR ''@'' \<notin> set d"
proof -
  from test_full_lang[OF assms] obtain l d where
    "s = l @ CHR ''@'' # d" "l \<in> lang localRegex" "d \<in> lang domainRegex"
    by (auto simp: emailRegex_def Chr_def)
  then show ?thesis using lang_localRegex lang_domainRegex by blast
qed

text \<open>The matcher finds every word of the expression.\<close>

lemma iterate_rems_self: "s \<in> set (iterate_rems f k s)"
  by (cases k) simp_all

lemma iterate_rems_complete:
  assumes f: "\<And>w t. w \<in> L \<Longrightarrow> t \<in> set (f (w @ t))"
  shows "w \<in> iter L \<Longrightarrow> length (w @ t) \<le> k \<Longrightarrow> t \<in> set (iterate_rems f k (w @ t))"
proof (induction arbitrary: k rule: iter.induct)
  case iter_Nil
  then show ?case by (simp add: iterate_rems_self)
next
  case (iter_App u v)
  show ?case
  proof (cases "u = []")
    case True
    with iter_App show ?thesis by simp
  next
    case False
    with iter_App.prems obtain k' where k: "k = Suc k'" by (cases k) auto
    have 1: "v @ t \<in> set (f (u @ v @ t))" using f[OF iter_App.hyps(1)] .
    have 2: "length (v @ t) < length (u @ v @ t)" using False by simp
    from False obtain x xs where "u = x # xs" by (cases u) auto
    with iter_App.prems k have "length (v @ t) \<le> k'" by simp
    then have 3: "t \<in> set (iterate_rems f k' (v @ t))"
      by (rule iter_App.IH)
    from 1 2 3 show ?thesis unfolding k by auto
  qed
qed

lemma rems_complete: "w \<in> lang r \<Longrightarrow> t \<in> set (rems r (w @ t))"
proof (induction r arbitrary: w t)
  case (Seq a b)
  from Seq.prems obtain u v where w: "w = u @ v" "u \<in> lang a" "v \<in> lang b" by auto
  from Seq.IH(1)[OF w(2), of "v @ t"] Seq.IH(2)[OF w(3), of t] show ?case
    unfolding w by auto
next
  case (Star a)
  then show ?case
    using iterate_rems_complete[of "lang a" "rems a" w t "length (w @ t)"] by simp
qed auto

lemma test_full_iff: "test_full r s \<longleftrightarrow> s \<in> lang r"
  using rems_complete[of s r "[]"] test_full_lang[of r s] by (auto simp: test_full_def)

lemma replicate_upto_times: "n \<le> m \<Longrightarrow> P c \<Longrightarrow> replicate n c \<in> lang (upto_times m (Cls P))"
proof (induction m arbitrary: n)
  case 0
  then show ?case by simp
next
  case (Suc m)
  show ?case
  proof (cases n)
    case 0
    then show ?thesis by (simp add: Opt_def)
  next
    case (Suc n')
    with Suc.prems Suc.IH[of n'] have "replicate n' c \<in> lang (upto_times m (Cls P))" by simp
    then have "[c] @ replicate n' c \<in> lang (Seq (Cls P) (upto_times m (Cls P)))"
      using Suc.prems(2) by (simp only: lang.simps) blast
    then show ?thesis using Suc by (simp add: Opt_def)
  qed
qed

lemma replicate_iter: "P c \<Longrightarrow> replicate n c \<in> iter {[x] | x. P x}"
proof (induction n)
  case 0
  then show ?case by (simp add: iter_Nil)
next
  case (Suc n)
  then have "[c] @ replicate n c \<in> iter {[x] | x. P x}" by (intro iter_App) auto
  then show ?case by simp
qed

lemma a_alnum: "alnum CHR ''a''"
  by (simp add: alnum_def alpha_def in_range_def)

lemma local63: "replicate 63 CHR ''a'' \<in> lang localRegex"
proof -
  have "replicate 61 CHR ''a'' \<in> lang (upto_times 61 (Cls (\<lambda>c. alnum c \<or> c \<in> set ''._%+-'')))"
    by (rule replicate_upto_times) (simp_all add: a_alnum)
  then have "replicate 61 CHR ''a'' @ [CHR ''a'']
      \<in> lang (Seq (upto_times 61 (Cls (\<lambda>c. alnum c \<or> c \<in> set ''._%+-''))) (Cls alnum))"
    using a_alnum by (simp only: lang.simps) blast
  then have "[CHR ''a''] @ (replicate 61 CHR ''a'' @ [CHR ''a'']) \<in> lang localRegex"
    unfolding localRegex_def Opt_def using a_alnum by (simp only: lang.simps) blast
  moreover have "[CHR ''a''] @ (replicate 61 CHR ''a'' @ [CHR ''a'']) = replicate 63 CHR ''a''"
    by (simp add: eval_nat_numeral replicate_append_same)
  ultimately show ?thesis by simp
qed

lemma js_split_from_no_sep:
  "c \<notin> set d \<Longrightarrow> js_split_from [c] acc d = [rev acc @ d]"
proof (induction d arbitrary: acc)
  case Nil
  then show ?case by (subst js_split_from.simps) simp
next
  case (Cons x d)
  then show ?case by (subst js_split_from.simps) (auto simp: startsWith_def)
qed

lemma js_split_from_first:
  "c \<notin> set l \<Longrightarrow> js_split_from [c] acc (l @ c # d) = (rev acc @ l) # js_split_from [c] [] d"
proof (induction l arbitrary: acc)
  case Nil
  then show ?case by (subst js_split_from.simps) (auto simp: startsWith_def)
next
  case (Cons x l)
  then show ?case by (subst js_split_from.simps) (auto simp: startsWith_def)
qed

lemma js_split_at:
  "CHR ''@'' \<notin> set l \<Longrightarrow> CHR ''@'' \<notin> set d \<Longrightarrow> js_split ''@'' (l @ CHR ''@'' # d) = [l, d]"
  by (simp add: js_split_def js_split_from_first js_split_from_no_sep)

section \<open>Response framing\<close>

lemma awaitResponse_Inl: "awaitResponse response ds = Inl e \<Longrightarrow> e = ''Response timeout''"
  by (induction ds arbitrary: response) (auto split: prod.splits option.splits)

lemma awaitResponse_Inr:
  "awaitResponse response ds = Inr r \<Longrightarrow>
     \<exists>k line. 0 < k \<and> k \<le> length ds \<and> fullResponse r = response @ concat (take k ds)
       \<and> line \<in> set (js_split [CR, LF] (fullResponse r)) \<and> complete_line line
       \<and> parseInt (take 3 line) = Some (code r) \<and> message r = drop 4 line"
proof (induction ds arbitrary: response)
  case Nil
  then show ?case by simp
next
  case (Cons d ds)
  show ?case
  proof (cases "find complete_line (js_split [CR, LF] (response @ d))")
    case None
    then have "awaitResponse (response @ d) ds = Inr r"
      using Cons.prems by (simp add: handleResponse_def Let_def)
    from Cons.IH[OF this] obtain k line where
      "0 < k" "k \<le> length ds" "fullResponse r = (response @ d) @ concat (take k ds)"
      "line \<in> set (js_split [CR, LF] (fullResponse r))" "complete_line line"
      "parseInt (take 3 line) = Some (code r)" "message r = drop 4 line" by blast
    then show ?thesis
      by (intro exI[of _ "Suc k"] exI[of _ line]) simp
  next
    case (Some line)
    then have r: "r = \<lparr>code = (case parseInt (take 3 line) of Some n \<Rightarrow> n | None \<Rightarrow> 0),
                 message = drop 4 line, fullResponse = response @ d\<rparr>"
      using Cons.prems by (simp add: handleResponse_def Let_def)
    from Some have l: "line \<in> set (js_split [CR, LF] (response @ d))" "complete_line line"
      by (auto simp: find_Some_iff)
    from complete_line_parseInt[OF l(2)] obtain n where n: "parseInt (take 3 line) = Some n"
      by blast
    show ?thesis
      using l n by (intro exI[of _ "Suc 0"] exI[of _ line]) (simp add: r)
  qed
qed

text \<open>
  What \<open>command\<close> resolves on is a piece of the buffer split at CR LF that has the form
  of a terminating line: a three-digit code followed by a space or the end of the
  piece, and not a code followed by a hyphen. The code and the message of the response
  are read from that piece. The pieces are the lines of the buffer and what follows
  its last CR LF. As long as no piece of an accumulated buffer has that form (and the
  write did not throw), the reader goes on accumulating and the promise is rejected by
  the read timer.
\<close>

lemma command_resolves_on_piece:
  "(command env n cmd = Inr r \<longrightarrow>
      (\<exists>k line. 0 < k \<and> k \<le> length (deliveries env n)
         \<and> fullResponse r = buffer_after env n k
         \<and> line \<in> set (js_split [CR, LF] (buffer_after env n k))
         \<and> terminating_line line
         \<and> parseInt (take 3 line) = Some (code r) \<and> message r = drop 4 line))
   \<and> ((cmd = None \<or> write_error env n = None)
        \<and> (\<forall>k \<le> length (deliveries env n).
              \<not> (\<exists>line \<in> set (js_split [CR, LF] (buffer_after env n k)). terminating_line line))
        \<longrightarrow> command env n cmd = Inl ''Response timeout'')"
proof (intro conjI impI)
  assume "command env n cmd = Inr r"
  then have "awaitResponse [] (deliveries env n) = Inr r"
    by (auto simp: command_def split: option.splits if_splits)
  from awaitResponse_Inr[OF this] obtain k line where
    kl: "0 < k" "k \<le> length (deliveries env n)"
      "fullResponse r = concat (take k (deliveries env n))"
      "line \<in> set (js_split [CR, LF] (fullResponse r))" "complete_line line"
      "parseInt (take 3 line) = Some (code r)" "message r = drop 4 line" by auto
  show "\<exists>k line. 0 < k \<and> k \<le> length (deliveries env n)
         \<and> fullResponse r = buffer_after env n k
         \<and> line \<in> set (js_split [CR, LF] (buffer_after env n k))
         \<and> terminating_line line
         \<and> parseInt (take 3 line) = Some (code r) \<and> message r = drop 4 line"
    using kl complete_line_terminating[OF kl(5)]
    by (intro exI[of _ k] exI[of _ line]) (simp add: buffer_after_def)
next
  assume a: "(cmd = None \<or> write_error env n = None)
        \<and> (\<forall>k \<le> length (deliveries env n).
              \<not> (\<exists>line \<in> set (js_split [CR, LF] (buffer_after env n k)). terminating_line line))"
  then have c: "command env n cmd = awaitResponse [] (deliveries env n)"
    by (auto simp: command_def split: option.splits)
  show "command env n cmd = Inl ''Response timeout''"
  proof (cases "awaitResponse [] (deliveries env n)")
    case (Inl e)
    then show ?thesis using c awaitResponse_Inl[OF Inl] by simp
  next
    case (Inr r)
    from awaitResponse_Inr[OF this] obtain k line where
      kl: "k \<le> length (deliveries env n)"
        "fullResponse r = concat (take k (deliveries env n))"
        "line \<in> set (js_split [CR, LF] (fullResponse r))" "complete_line line" by auto
    then have "line \<in> set (js_split [CR, LF] (buffer_after env n k))" "terminating_line line"
      by (simp_all add: buffer_after_def complete_line_terminating)
    with a kl(1) show ?thesis by blast
  qed
qed

text \<open>
  C4. The claim: the reader resolves only when the buffer holds a terminating line, and
  until then it accumulates partial reads. The code tests what follows the last CR LF
  of the buffer as if it were a line. The answer to EHLO of \<open>fragmentedSession\<close> arrives
  in two reads, \<^verbatim>\<open>250\<close> and then the rest of \<^verbatim>\<open>250-STARTTLS\<close> with the line \<^verbatim>\<open>250 ok\<close>.
  \<open>command\<close> resolves on the first read, with the code 250 and an empty message, when
  the buffer holds no line at all; the line that the read begins is a continuation
  line, and the terminating line of the reply arrives with the second read, which the
  reader does not wait for.
\<close>

theorem command_resolves_on_partial_read:
  "command fragmentedSession 1 (Some ''EHLO m'')
     = Inr \<lparr>code = 250, message = [], fullResponse = ''250''\<rparr>
   \<and> buffer_after fragmentedSession 1 1 = ''250''
   \<and> terminated_lines (buffer_after fragmentedSession 1 1) = []
   \<and> terminated_lines (buffer_after fragmentedSession 1 2) = [''250-STARTTLS'', ''250 ok'']
   \<and> continuation_line ''250-STARTTLS''
   \<and> terminating_line ''250 ok''"
proof -
  have a: "awaitResponse [] fragments = Inr \<lparr>code = 250, message = [], fullResponse = ''250''\<rparr>"
    by code_simp
  have c: "command fragmentedSession 1 (Some ''EHLO m'')
     = Inr \<lparr>code = 250, message = [], fullResponse = ''250''\<rparr>"
    by (simp add: command_def fragmentedSession_def scripted_def a)
  have b1: "buffer_after fragmentedSession 1 1 = ''250''"
    by (simp add: buffer_after_def fragmentedSession_def scripted_def fragments_def)
  have b2: "buffer_after fragmentedSession 1 2
              = ''250-STARTTLS'' @ [CR, LF] @ ''250 ok'' @ [CR, LF]"
    by (simp add: buffer_after_def fragmentedSession_def scripted_def fragments_def)
  have t1: "terminated_lines ''250'' = []"
    by code_simp
  have t2: "terminated_lines (''250-STARTTLS'' @ [CR, LF] @ ''250 ok'' @ [CR, LF])
              = [''250-STARTTLS'', ''250 ok'']"
    by code_simp
  have l: "continuation_line ''250-STARTTLS''" "terminating_line ''250 ok''"
    by (simp_all add: terminating_line_def reply_line_def continuation_line_def digit_def
          in_range_def)
  show ?thesis
    unfolding b1 b2 using c t1 t2 l by blast
qed

text \<open>
  A read that ends inside a terminating line resolves the command as well, with the
  message cut where the read ends.
\<close>

lemma command_truncates_partial_line:
  "awaitResponse [] [''250 O'', ''K'' @ [CR, LF]]
     = Inr \<lparr>code = 250, message = ''O'', fullResponse = ''250 O''\<rparr>"
  by code_simp
section \<open>Mailbox probe\<close>

lemma await_220:
  "awaitResponse [] (reply ''220 hi'')
     = Inr \<lparr>code = 220, message = ''hi'', fullResponse = ''220 hi'' @ [CR, LF]\<rparr>"
  by code_simp

lemma await_220_go:
  "awaitResponse [] (reply ''220 go'')
     = Inr \<lparr>code = 220, message = ''go'', fullResponse = ''220 go'' @ [CR, LF]\<rparr>"
  by code_simp

lemma await_250:
  "awaitResponse [] (reply ''250 ok'')
     = Inr \<lparr>code = 250, message = ''ok'', fullResponse = ''250 ok'' @ [CR, LF]\<rparr>"
  by code_simp

lemma await_550:
  "awaitResponse [] (reply ''550 no'')
     = Inr \<lparr>code = 550, message = ''no'', fullResponse = ''550 no'' @ [CR, LF]\<rparr>"
  by code_simp

lemma await_450:
  "awaitResponse [] (reply ''450 no'')
     = Inr \<lparr>code = 450, message = ''no'', fullResponse = ''450 no'' @ [CR, LF]\<rparr>"
  by code_simp

lemma await_454:
  "awaitResponse [] (reply ''454 no'')
     = Inr \<lparr>code = 454, message = ''no'', fullResponse = ''454 no'' @ [CR, LF]\<rparr>"
  by code_simp

lemma await_starttls:
  "awaitResponse [] advertising
     = Inr \<lparr>code = 250, message = ''STARTTLS'', fullResponse = advertisement\<rparr>"
  by code_simp

lemma no_starttls: "\<not> js_includes (toLowerCase (''250 ok'' @ [CR, LF])) ''starttls''"
  by code_simp

lemma has_starttls: "js_includes (toLowerCase advertisement) ''starttls''"
  by code_simp

text \<open>The probe of a server without STARTTLS, for a policy without \<open>heloHost\<close> and \<open>fromAddresses\<close>.\<close>

lemma plain_probe:
  assumes "heloHost c = None" "fromAddresses c = None" "awaitResponse [] (reply l) = Inr r"
  shows "verifyMailbox (plainSession l) ''m'' ''a@b.co'' ''b.co'' (Some c)
           = Some (probeCompleted False r)"
  using assms no_starttls
  by (simp add: verifyMailbox_def greetAndHello_def heloHosts_def startTLS_def
        probeRecipient_def senderAddresses_def command_def plainSession_def scripted_def
        await_220 await_250)

text \<open>
  C5. When the session reaches the recipient step (greeting, EHLO/HELO, the STARTTLS
  block was left without an error, MAIL FROM went through) and the RCPT TO command is
  answered, \<open>verifyMailbox\<close> returns \<open>success = true\<close> and \<open>mailboxExists\<close> is true exactly
  when the reply code is 250, whatever the policy. In no result of \<open>verifyMailbox\<close> is
  \<open>mailboxExists\<close> true with another reply code.
\<close>

theorem verifyMailbox_recipient_verdict:
  "(greetAndHello env host domain config = Inr (n, ehloResponse)
      \<and> startTLS env n config (heloHosts config domain host) ehloResponse = Some (Inr n', tls)
      \<and> mailFromLoop env n' (senderAddresses config domain) = (n'', True)
      \<and> command env n'' (Some (''RCPT TO:<'' @ addr @ ''>'')) = Inr rcptResponse
    \<longrightarrow> verifyMailbox env host addr domain config =
         Some \<lparr>success = True, mailboxExists = (code rcptResponse = 250), supportsTLS = Some tls,
           replyCode = Some (code rcptResponse), replyMessage = Some (message rcptResponse),
           error = None, protected = False\<rparr>)
   \<and> (verifyMailbox env host addr domain config = Some result \<and> mailboxExists result
        \<longrightarrow> success result \<and> replyCode result = Some 250)"
  by (auto simp: verifyMailbox_def probeRecipient_def probeCompleted_def probeFailed_def
           split: sum.splits prod.splits if_splits option.splits)

theorem verifyMailbox_recipient_verdict_witness:
  "greetAndHello (plainSession ''550 no'') ''m'' ''b.co'' (Some genericConfig)
     = Inr (2, \<lparr>code = 250, message = ''ok'', fullResponse = ''250 ok'' @ [CR, LF]\<rparr>)
   \<and> startTLS (plainSession ''550 no'') 2 (Some genericConfig)
        (heloHosts (Some genericConfig) ''b.co'' ''m'')
        \<lparr>code = 250, message = ''ok'', fullResponse = ''250 ok'' @ [CR, LF]\<rparr>
       = Some (Inr 2, False)
   \<and> mailFromLoop (plainSession ''550 no'') 2 (senderAddresses (Some genericConfig) ''b.co'')
        = (3, True)
   \<and> command (plainSession ''550 no'') 3 (Some (''RCPT TO:<'' @ ''a@b.co'' @ ''>''))
        = Inr \<lparr>code = 550, message = ''no'', fullResponse = ''550 no'' @ [CR, LF]\<rparr>
   \<and> verifyMailbox (plainSession ''550 no'') ''m'' ''a@b.co'' ''b.co'' (Some genericConfig) =
         Some \<lparr>success = True, mailboxExists = False, supportsTLS = Some False,
           replyCode = Some 550, replyMessage = Some ''no'', error = None, protected = False\<rparr>
   \<and> verifyMailbox (plainSession ''250 ok'') ''m'' ''a@b.co'' ''b.co'' (Some genericConfig)
        = Some (probeCompleted False
                 \<lparr>code = 250, message = ''ok'', fullResponse = ''250 ok'' @ [CR, LF]\<rparr>)
   \<and> mailboxExists (probeCompleted False
                 \<lparr>code = 250, message = ''ok'', fullResponse = ''250 ok'' @ [CR, LF]\<rparr>)
   \<and> success (probeCompleted False
                 \<lparr>code = 250, message = ''ok'', fullResponse = ''250 ok'' @ [CR, LF]\<rparr>)
   \<and> replyCode (probeCompleted False
                 \<lparr>code = 250, message = ''ok'', fullResponse = ''250 ok'' @ [CR, LF]\<rparr>)
        = Some 250"
proof -
  let ?env = "plainSession ''550 no''"
  let ?ehlo = "\<lparr>code = 250, message = ''ok'', fullResponse = ''250 ok'' @ [CR, LF]\<rparr>"
  let ?rcpt = "\<lparr>code = 550, message = ''no'', fullResponse = ''550 no'' @ [CR, LF]\<rparr>"
  let ?ok = "probeCompleted False ?ehlo"
  have g: "greetAndHello ?env ''m'' ''b.co'' (Some genericConfig) = Inr (2, ?ehlo)"
    by (simp add: greetAndHello_def heloHosts_def genericConfig_def command_def
          plainSession_def scripted_def await_220 await_250)
  have t: "startTLS ?env 2 (Some genericConfig) (heloHosts (Some genericConfig) ''b.co'' ''m'') ?ehlo
             = Some (Inr 2, False)"
    using no_starttls by (simp add: startTLS_def)
  have m: "mailFromLoop ?env 2 (senderAddresses (Some genericConfig) ''b.co'') = (3, True)"
    by (simp add: senderAddresses_def genericConfig_def command_def plainSession_def
          scripted_def await_250)
  have r: "command ?env 3 (Some (''RCPT TO:<'' @ ''a@b.co'' @ ''>'')) = Inr ?rcpt"
    by (simp add: command_def plainSession_def scripted_def await_550)
  have p: "verifyMailbox (plainSession ''250 ok'') ''m'' ''a@b.co'' ''b.co'' (Some genericConfig)
             = Some ?ok"
    by (rule plain_probe[OF _ _ await_250]) (simp_all add: genericConfig_def)
  have e: "mailboxExists ?ok"
    by (simp add: probeCompleted_def)
  from verifyMailbox_recipient_verdict[of ?env "''m''" "''b.co''" "Some genericConfig" 2 ?ehlo
      2 False 3 "''a@b.co''" ?rcpt] g t m r
  have v: "verifyMailbox ?env ''m'' ''a@b.co'' ''b.co'' (Some genericConfig) =
         Some \<lparr>success = True, mailboxExists = False, supportsTLS = Some False,
           replyCode = Some 550, replyMessage = Some ''no'', error = None, protected = False\<rparr>"
    by simp
  from verifyMailbox_recipient_verdict[of "plainSession ''250 ok''" "''m''" "''b.co''"
      "Some genericConfig" _ _ _ _ _ "''a@b.co''" _ ?ok] p e
  have "success ?ok \<and> replyCode ?ok = Some 250"
    by blast
  with g t m r v p e show ?thesis by blast
qed

section \<open>STARTTLS\<close>

text \<open>
  An exception of the STARTTLS command or of \<open>upgradeToTLS\<close> is handled by the policy:
  with \<open>requireTLS\<close> the attempt ends with the error "Required TLS connection failed";
  without it the STARTTLS block is left with \<open>supportsTLS = false\<close> and the probe goes
  on with sender negotiation.
\<close>

lemma starttls_exception_policy:
  "greetAndHello env host domain config = Inr (n, ehloResponse) \<Longrightarrow>
   js_includes (toLowerCase (fullResponse ehloResponse)) ''starttls'' \<Longrightarrow>
   upgradeThrows env n \<Longrightarrow>
     (requiresTLS config \<longrightarrow>
        verifyMailbox env host addr domain config =
          Some \<lparr>success = False, mailboxExists = False, supportsTLS = Some False,
            replyCode = None, replyMessage = None,
            error = Some ''Required TLS connection failed'', protected = False\<rparr>)
   \<and> (\<not> requiresTLS config \<longrightarrow>
        startTLS env n config (heloHosts config domain host) ehloResponse
          = Some (Inr (n + 1), False)
        \<and> verifyMailbox env host addr domain config
            = Some (probeRecipient env (n + 1) False addr domain config))"
  by (auto simp: verifyMailbox_def startTLS_def upgradeThrows_def probeFailed_def
           split: sum.splits option.splits tls_outcome.splits)

text \<open>
  A reply to STARTTLS other than 220 raises no exception: whatever the policy, the
  STARTTLS block is left with \<open>supportsTLS = false\<close> and the probe goes on with sender
  negotiation on the unencrypted session.
\<close>

lemma starttls_refusal_continues:
  "greetAndHello env host domain config = Inr (n, ehloResponse) \<Longrightarrow>
   js_includes (toLowerCase (fullResponse ehloResponse)) ''starttls'' \<Longrightarrow>
   command env n (Some ''STARTTLS'') = Inr tlsCmd \<Longrightarrow> code tlsCmd \<noteq> 220 \<Longrightarrow>
   verifyMailbox env host addr domain config
     = Some (probeRecipient env (n + 1) False addr domain config)"
  by (simp add: verifyMailbox_def startTLS_def)

lemma gmail_policy:
  "requireTLS (getProviderConfig ''gmail.com'')"
  "heloHost (getProviderConfig ''gmail.com'') = Some ''gmail-smtp-in.l.google.com''"
  "fromAddresses (getProviderConfig ''gmail.com'')
     = Some [''postmaster@gmail.com'', ''verify@gmail.com'']"
proof -
  have "toLowerCase ''gmail.com'' = ''gmail.com''"
    by (simp add: toLowerCase_def lower_char_def in_range_def)
  then show "requireTLS (getProviderConfig ''gmail.com'')"
    "heloHost (getProviderConfig ''gmail.com'') = Some ''gmail-smtp-in.l.google.com''"
    "fromAddresses (getProviderConfig ''gmail.com'')
       = Some [''postmaster@gmail.com'', ''verify@gmail.com'']"
    by (simp_all add: getProviderConfig_def PROVIDERS_def Let_def)
qed

lemma failed_handshake_example:
  "upgradeThrows tlsSession 2
   \<and> verifyMailbox tlsSession ''m'' ''a@gmail.com'' ''gmail.com''
        (Some (getProviderConfig ''gmail.com''))
       = Some (probeFailed False ''Required TLS connection failed'')
   \<and> verifyMailbox tlsSession ''m'' ''a@b.co'' ''b.co'' (Some genericConfig)
       = Some (probeFailed False ''MAIL FROM command failed'')"
proof -
  let ?ehlo = "\<lparr>code = 250, message = ''STARTTLS'', fullResponse = advertisement\<rparr>"
  have g1: "greetAndHello tlsSession ''m'' ''gmail.com'' (Some (getProviderConfig ''gmail.com''))
              = Inr (2, ?ehlo)"
    by (simp add: greetAndHello_def heloHosts_def gmail_policy command_def tlsSession_def
          scripted_def await_220 await_starttls)
  have g2: "greetAndHello tlsSession ''m'' ''b.co'' (Some genericConfig) = Inr (2, ?ehlo)"
    by (simp add: greetAndHello_def heloHosts_def genericConfig_def command_def tlsSession_def
          scripted_def await_220 await_starttls)
  have a: "js_includes (toLowerCase (fullResponse ?ehlo)) ''starttls''"
    using has_starttls by simp
  have u: "upgradeThrows tlsSession 2"
    by (simp add: upgradeThrows_def command_def tlsSession_def scripted_def await_220_go)
  have q1: "requiresTLS (Some (getProviderConfig ''gmail.com''))"
    by (simp add: requiresTLS_def gmail_policy)
  have q2: "\<not> requiresTLS (Some genericConfig)"
    by (simp add: requiresTLS_def genericConfig_def)
  have p: "probeRecipient tlsSession (2 + 1) False ''a@b.co'' ''b.co'' (Some genericConfig)
             = probeFailed False ''MAIL FROM command failed''"
    by (simp add: probeRecipient_def senderAddresses_def genericConfig_def command_def
          tlsSession_def scripted_def)
  from starttls_exception_policy[OF g1 a u, of "''a@gmail.com''"] q1
  have v1: "verifyMailbox tlsSession ''m'' ''a@gmail.com'' ''gmail.com''
        (Some (getProviderConfig ''gmail.com''))
          = Some (probeFailed False ''Required TLS connection failed'')"
    by (simp add: probeFailed_def)
  from starttls_exception_policy[OF g2 a u, of "''a@b.co''"] q2 p
  have v2: "verifyMailbox tlsSession ''m'' ''a@b.co'' ''b.co'' (Some genericConfig)
        = Some (probeFailed False ''MAIL FROM command failed'')"
    by simp
  from u v1 v2 show ?thesis by blast
qed

text \<open>
  C8. The claim: when the server advertised STARTTLS and the upgrade fails, a policy
  with \<open>requireTLS = true\<close> ends the attempt with the error
  "Required TLS connection failed". The policy of gmail.com has \<open>requireTLS = true\<close>.
  The server of \<open>refusingSession\<close> advertises STARTTLS and answers the command with
  454, so the upgrade fails. \<open>verifyMailbox\<close> raises no error: it goes on with MAIL FROM
  and RCPT TO on the unencrypted session and returns the completed probe, with
  \<open>supportsTLS = false\<close> and no \<open>error\<close>. The policy is applied in the \<open>catch\<close> of the
  STARTTLS block only; the test of the reply code 220 has no other branch.
\<close>

theorem required_tls_not_enforced_on_refusal:
  "greetAndHello refusingSession ''m'' ''gmail.com'' (Some (getProviderConfig ''gmail.com''))
     = Inr (2, \<lparr>code = 250, message = ''STARTTLS'', fullResponse = advertisement\<rparr>)
   \<and> js_includes (toLowerCase advertisement) ''starttls''
   \<and> command refusingSession 2 (Some ''STARTTLS'')
       = Inr \<lparr>code = 454, message = ''no'', fullResponse = ''454 no'' @ [CR, LF]\<rparr>
   \<and> upgradeFails refusingSession 2
   \<and> requiresTLS (Some (getProviderConfig ''gmail.com''))
   \<and> verifyMailbox refusingSession ''m'' ''a@gmail.com'' ''gmail.com''
        (Some (getProviderConfig ''gmail.com''))
       = Some \<lparr>success = True, mailboxExists = True, supportsTLS = Some False,
           replyCode = Some 250, replyMessage = Some ''ok'', error = None, protected = False\<rparr>"
proof -
  let ?gmail = "Some (getProviderConfig ''gmail.com'')"
  let ?ehlo = "\<lparr>code = 250, message = ''STARTTLS'', fullResponse = advertisement\<rparr>"
  let ?refusal = "\<lparr>code = 454, message = ''no'', fullResponse = ''454 no'' @ [CR, LF]\<rparr>"
  have g: "greetAndHello refusingSession ''m'' ''gmail.com'' ?gmail = Inr (2, ?ehlo)"
    by (simp add: greetAndHello_def heloHosts_def gmail_policy command_def refusingSession_def
          scripted_def await_220 await_starttls)
  have a: "js_includes (toLowerCase (fullResponse ?ehlo)) ''starttls''"
    using has_starttls by simp
  have c: "command refusingSession 2 (Some ''STARTTLS'') = Inr ?refusal"
    by (simp add: command_def refusingSession_def scripted_def await_454)
  have u: "upgradeFails refusingSession 2"
    by (simp add: upgradeFails_def c)
  have q: "requiresTLS ?gmail"
    by (simp add: requiresTLS_def gmail_policy)
  have p: "probeRecipient refusingSession (2 + 1) False ''a@gmail.com'' ''gmail.com'' ?gmail =
          \<lparr>success = True, mailboxExists = True, supportsTLS = Some False, replyCode = Some 250,
           replyMessage = Some ''ok'', error = None, protected = False\<rparr>"
    by (simp add: probeRecipient_def senderAddresses_def gmail_policy command_def
          refusingSession_def scripted_def await_250 probeCompleted_def)
  have v: "verifyMailbox refusingSession ''m'' ''a@gmail.com'' ''gmail.com'' ?gmail
       = Some \<lparr>success = True, mailboxExists = True, supportsTLS = Some False,
           replyCode = Some 250, replyMessage = Some ''ok'', error = None, protected = False\<rparr>"
    using starttls_refusal_continues[OF g a c, of "''a@gmail.com''"] p by simp
  from g has_starttls c u q v show ?thesis by blast
qed

section \<open>Retry controller\<close>

lemma smtpAttempts_step:
  "attempt < retryAttempts config \<Longrightarrow> preconnect_error (net attempt) = None \<Longrightarrow>
   verifyMailbox (session (net attempt)) mxServer addr domain (Some config) = Some result \<Longrightarrow>
   success result \<Longrightarrow> replyCode result = Some c \<Longrightarrow>
   smtpAttempts config net mxServer addr domain attempt lastError =
     (if c \<in> set (acceptCodes config) then
        Some (definitive result True c (replyMessage result) False, attempt + 1)
      else if c \<in> set (rejectCodes config) then
        Some (definitive result False c (replyMessage result) False, attempt + 1)
      else if \<not> reliable config
              \<and> (case tempCodes config of None \<Rightarrow> False | Some ts \<Rightarrow> c \<in> set ts) then
        Some (definitive result True c (Some ''Server employs protection measures'') True,
              attempt + 1)
      else smtpAttempts config net mxServer addr domain (attempt + 1)
             (Some (js_or (error result) ''Ambiguous server response'')))"
  by (subst smtpAttempts.simps) simp

text \<open>
  C6, as amended. In any iteration of the retry loop in which the probe completes with
  a reply code that is among the policy's \<open>rejectCodes\<close> and not among its
  \<open>acceptCodes\<close>, \<open>performSMTPCheck\<close> returns at once with \<open>success = true\<close> and
  \<open>mailboxExists = false\<close>: the attempts started are those up to this one, and no
  further attempt is made against the host.
\<close>

theorem reject_code_is_decisive:
  assumes "attempt < retryAttempts config"
    and "preconnect_error (net attempt) = None"
    and "verifyMailbox (session (net attempt)) mxServer addr domain (Some config) = Some result"
    and "success result"
    and "replyCode result = Some c"
    and "c \<in> set (rejectCodes config)"
    and "c \<notin> set (acceptCodes config)"
  shows "\<exists>outcome. smtpAttempts config net mxServer addr domain attempt lastError
                = Some (outcome, attempt + 1)
      \<and> success outcome \<and> \<not> mailboxExists outcome \<and> replyCode outcome = Some c
      \<and> \<not> protected outcome"
proof -
  let ?outcome = "definitive result False c (replyMessage result) False"
  have "smtpAttempts config net mxServer addr domain attempt lastError
          = Some (?outcome, attempt + 1)"
    using smtpAttempts_step[where net = net and attempt = attempt and lastError = lastError,
        OF assms(1-5)] assms(6,7) by simp
  moreover have "success ?outcome \<and> \<not> mailboxExists ?outcome \<and> replyCode ?outcome = Some c
      \<and> \<not> protected ?outcome"
    by (simp add: definitive_def)
  ultimately show ?thesis by blast
qed

theorem reject_code_is_decisive_witness:
  "\<exists>outcome. smtpAttempts genericConfig (answering ''550 no'') ''m'' ''a@b.co'' ''b.co'' 0 None
       = Some (outcome, 0 + 1)
      \<and> success outcome \<and> \<not> mailboxExists outcome \<and> replyCode outcome = Some 550
      \<and> \<not> protected outcome"
proof -
  have p: "verifyMailbox (session (answering ''550 no'' 0)) ''m'' ''a@b.co'' ''b.co''
             (Some genericConfig)
             = Some (probeCompleted False \<lparr>code = 550, message = ''no'',
                 fullResponse = ''550 no'' @ [CR, LF]\<rparr>)"
    unfolding answering_def attempt_env.simps
    by (rule plain_probe[OF _ _ await_550]) (simp_all add: genericConfig_def)
  show ?thesis
    by (rule reject_code_is_decisive[where c = 550 and net = "answering ''550 no''"
          and attempt = 0, OF _ _ p])
       (simp_all add: genericConfig_def answering_def probeCompleted_def)
qed

text \<open>
  The claim as stated fails for a policy that lists a code in both sets: the accept
  codes are looked at first. With 250 among the reject codes of \<open>overlapConfig\<close> a
  probe that completes with 250 gives \<open>mailboxExists = true\<close>.
\<close>

theorem reject_code_overlap_counterexample:
  "250 \<in> set (rejectCodes overlapConfig)
   \<and> 0 < retryAttempts overlapConfig
   \<and> preconnect_error (answering ''250 ok'' 0) = None
   \<and> verifyMailbox (session (answering ''250 ok'' 0)) ''m'' ''a@b.co'' ''b.co''
        (Some overlapConfig)
       = Some \<lparr>success = True, mailboxExists = True, supportsTLS = Some False,
           replyCode = Some 250, replyMessage = Some ''ok'', error = None, protected = False\<rparr>
   \<and> performSMTPCheck (answering ''250 ok'') ''m'' ''a@b.co'' ''b.co'' (Some overlapConfig)
       = Some (Inr (\<lparr>success = True, mailboxExists = True, supportsTLS = Some False,
               replyCode = Some 250, replyMessage = Some ''ok'', error = None,
               protected = False\<rparr>, 1))"
proof -
  let ?probe = "probeCompleted False \<lparr>code = 250, message = ''ok'',
                 fullResponse = ''250 ok'' @ [CR, LF]\<rparr>"
  have p: "verifyMailbox (session (answering ''250 ok'' 0)) ''m'' ''a@b.co'' ''b.co''
                  (Some overlapConfig) = Some ?probe"
    unfolding answering_def attempt_env.simps
    by (rule plain_probe[OF _ _ await_250]) (simp_all add: overlapConfig_def genericConfig_def)
  have c: "250 \<in> set (rejectCodes overlapConfig)" "0 < retryAttempts overlapConfig"
    "250 \<in> set (acceptCodes overlapConfig)"
    by (simp_all add: overlapConfig_def genericConfig_def)
  have a: "preconnect_error (answering ''250 ok'' 0) = None" by (simp add: answering_def)
  have s: "success ?probe" "replyCode ?probe = Some 250"
    by (simp_all add: probeCompleted_def)
  have "smtpAttempts overlapConfig (answering ''250 ok'') ''m'' ''a@b.co'' ''b.co'' 0 None
      = Some (definitive ?probe True 250 (replyMessage ?probe) False, 0 + 1)"
    using smtpAttempts_step[where net = "answering ''250 ok''" and attempt = 0
        and config = overlapConfig and lastError = None, OF c(2) a p s] c(3)
    by simp
  then have "performSMTPCheck (answering ''250 ok'') ''m'' ''a@b.co'' ''b.co'' (Some overlapConfig)
       = Some (Inr (\<lparr>success = True, mailboxExists = True, supportsTLS = Some False,
               replyCode = Some 250, replyMessage = Some ''ok'', error = None,
               protected = False\<rparr>, 1))"
    by (simp add: performSMTPCheck_def definitive_def probeCompleted_def)
  moreover have "verifyMailbox (session (answering ''250 ok'' 0)) ''m'' ''a@b.co'' ''b.co''
        (Some overlapConfig)
       = Some \<lparr>success = True, mailboxExists = True, supportsTLS = Some False,
           replyCode = Some 250, replyMessage = Some ''ok'', error = None, protected = False\<rparr>"
    by (simp add: p probeCompleted_def)
  ultimately show ?thesis using c a by blast
qed

text \<open>The sets do not overlap in any policy the resolver returns.\<close>

lemma find_Some_mem: "find P xs = Some x \<Longrightarrow> x \<in> set xs"
  by (induction xs) (auto split: if_splits)

lemma getProviderConfig_cases:
  "getProviderConfig d = genericConfig
   \<or> (\<exists>name config. (name, config) \<in> set PROVIDERS
         \<and> getProviderConfig d = config\<lparr>provider := Some name\<rparr>)"
proof -
  let ?byDomain = "find (\<lambda>(name, config). toLowerCase d \<in> set (domains config)) PROVIDERS"
  let ?byMx = "find (\<lambda>(name, config).
                      list_ex (\<lambda>mxDomain. js_includes (toLowerCase d) mxDomain) (mxDomains config))
                    PROVIDERS"
  show ?thesis
  proof (cases ?byDomain)
    case (Some p)
    obtain name config where p: "p = (name, config)" by (cases p)
    from Some p have "(name, config) \<in> set PROVIDERS" by (auto dest: find_Some_mem)
    moreover from Some p have "getProviderConfig d = config\<lparr>provider := Some name\<rparr>"
      by (simp add: getProviderConfig_def Let_def)
    ultimately show ?thesis by blast
  next
    case None
    show ?thesis
    proof (cases ?byMx)
      case (Some p)
      obtain name config where p: "p = (name, config)" by (cases p)
      from Some p have "(name, config) \<in> set PROVIDERS" by (auto dest: find_Some_mem)
      moreover from None Some p have "getProviderConfig d = config\<lparr>provider := Some name\<rparr>"
        by (simp add: getProviderConfig_def Let_def)
      ultimately show ?thesis by blast
    next
      case None': None
      with None show ?thesis by (simp add: getProviderConfig_def Let_def)
    qed
  qed
qed

lemma resolver_codes_disjoint:
  "set (acceptCodes (getProviderConfig d)) \<inter> set (rejectCodes (getProviderConfig d)) = {}"
  using getProviderConfig_cases[of d]
  by (auto simp: genericConfig_def PROVIDERS_def)

text \<open>
  C7. In any iteration of the retry loop, for a policy with \<open>reliable = false\<close> that
  defines \<open>tempCodes\<close>, a probe that completes with a reply code among the \<open>tempCodes\<close> and
  in neither \<open>acceptCodes\<close> nor \<open>rejectCodes\<close> gives \<open>success = true\<close>,
  \<open>mailboxExists = true\<close> and the \<open>protected\<close> flag.
\<close>

theorem temp_code_is_protected_success:
  assumes "attempt < retryAttempts config"
    and "preconnect_error (net attempt) = None"
    and "verifyMailbox (session (net attempt)) mxServer addr domain (Some config) = Some result"
    and "success result"
    and "replyCode result = Some c"
    and "\<not> reliable config"
    and "tempCodes config = Some ts"
    and "c \<in> set ts"
    and "c \<notin> set (acceptCodes config)"
    and "c \<notin> set (rejectCodes config)"
  shows "\<exists>outcome. smtpAttempts config net mxServer addr domain attempt lastError
                = Some (outcome, attempt + 1)
      \<and> success outcome \<and> mailboxExists outcome \<and> protected outcome
      \<and> replyCode outcome = Some c"
proof -
  let ?outcome = "definitive result True c (Some ''Server employs protection measures'') True"
  have "smtpAttempts config net mxServer addr domain attempt lastError
          = Some (?outcome, attempt + 1)"
    using smtpAttempts_step[where net = net and attempt = attempt and lastError = lastError,
        OF assms(1-5)] assms(6-10) by simp
  moreover have "success ?outcome \<and> mailboxExists ?outcome \<and> protected ?outcome
      \<and> replyCode ?outcome = Some c"
    by (simp add: definitive_def)
  ultimately show ?thesis by blast
qed

theorem temp_code_is_protected_success_witness:
  "\<exists>outcome. smtpAttempts genericConfig (answering ''450 no'') ''m'' ''a@b.co'' ''b.co'' 0 None
       = Some (outcome, 0 + 1)
      \<and> success outcome \<and> mailboxExists outcome \<and> protected outcome
      \<and> replyCode outcome = Some 450"
proof -
  have p: "verifyMailbox (session (answering ''450 no'' 0)) ''m'' ''a@b.co'' ''b.co''
             (Some genericConfig)
             = Some (probeCompleted False \<lparr>code = 450, message = ''no'',
                 fullResponse = ''450 no'' @ [CR, LF]\<rparr>)"
    unfolding answering_def attempt_env.simps
    by (rule plain_probe[OF _ _ await_450]) (simp_all add: genericConfig_def)
  show ?thesis
    by (rule temp_code_is_protected_success[where c = 450 and ts = "[450, 451, 452]"
          and net = "answering ''450 no''" and attempt = 0, OF _ _ p])
       (simp_all add: genericConfig_def answering_def probeCompleted_def)
qed
section \<open>Validation pipeline\<close>

lemma validateEmail_cases:
  "(\<not> validateEmailFormat v
      \<and> validateEmail env v
          = Some (Inr ((initialResult v)\<lparr>reason := ''Invalid email format''\<rparr>)))
   \<or> (\<exists>l d. v = JStr (l @ CHR ''@'' # d) \<and> validateEmailFormat v \<and> length l \<le> 63
        \<and> validateEmail env v =
            (if length d > 255
             then Some (Inr ((formatPassed v)\<lparr>reason := ''Domain exceeds maximum length''\<rparr>))
             else map_option Inr (lookupAndProbe env (formatPassed v) (l @ CHR ''@'' # d) d)))"
proof (cases "validateEmailFormat v")
  case False
  then show ?thesis
    by (simp add: validateEmail_def Let_def initialResult_def)
next
  case True
  then obtain s where s: "v = JStr s" "test_full emailRegex s"
    by (auto simp: validateEmailFormat_def split: js_value.splits)
  from emailRegex_shape[OF s(2)] obtain l d where
    ld: "s = l @ CHR ''@'' # d" "length l \<le> 63" "CHR ''@'' \<notin> set l" "CHR ''@'' \<notin> set d"
    by blast
  have "js_split ''@'' s = [l, d]" using ld js_split_at by simp
  then have "validateEmail env v =
            (if length d > 255
             then Some (Inr ((formatPassed v)\<lparr>reason := ''Domain exceeds maximum length''\<rparr>))
             else map_option Inr (lookupAndProbe env (formatPassed v) (l @ CHR ''@'' # d) d))"
    using True s(1) ld(1,2)
    by (simp add: validateEmail_def Let_def formatPassed_def initialResult_def)
  with True s(1) ld show ?thesis by blast
qed

text \<open>The three ways in which \<open>validateEmail\<close> returns a result.\<close>

lemma validateEmail_returns:
  assumes "validateEmail env v = Some (Inr r)"
  shows "r = (initialResult v)\<lparr>reason := ''Invalid email format''\<rparr>
     \<or> r = (formatPassed v)\<lparr>reason := ''Domain exceeds maximum length''\<rparr>
     \<or> (\<exists>a d. lookupAndProbe env (formatPassed v) a d = Some r)"
proof -
  from validateEmail_cases[of v env] show ?thesis
  proof (elim disjE exE conjE)
    assume "validateEmail env v
              = Some (Inr ((initialResult v)\<lparr>reason := ''Invalid email format''\<rparr>))"
    with assms show ?thesis by simp
  next
    fix l d
    assume c: "validateEmail env v =
            (if length d > 255
             then Some (Inr ((formatPassed v)\<lparr>reason := ''Domain exceeds maximum length''\<rparr>))
             else map_option Inr (lookupAndProbe env (formatPassed v) (l @ CHR ''@'' # d) d))"
    show ?thesis
    proof (cases "length d > 255")
      case True
      with c assms show ?thesis by simp
    next
      case False
      with c assms have "lookupAndProbe env (formatPassed v) (l @ CHR ''@'' # d) d = Some r"
        by (cases "lookupAndProbe env (formatPassed v) (l @ CHR ''@'' # d) d") simp_all
      then show ?thesis by blast
    qed
  qed
qed

lemma mxLoop_checks:
  "mxLoop env a d cfg i ms res le = Some (res', le') \<Longrightarrow>
     format (checks res') = format (checks res) \<and> dns (checks res') = dns (checks res)
     \<and> mx (checks res') = mx (checks res) \<and> spf (checks res') = spf (checks res)
     \<and> email res' = email res
     \<and> (smtp (checks res') \<or> (mailbox (checks res') = mailbox (checks res)
                               \<and> smtp (checks res') = smtp (checks res)))"
proof (induction ms arbitrary: i res le)
  case Nil
  then show ?case by simp
next
  case (Cons m ms)
  show ?case
  proof (cases "smtpAttempts cfg (smtp_net env i) (exchange m) a d 0 None")
    case None
    with Cons.prems show ?thesis by (simp add: performSMTPCheck_def)
  next
    case (Some outcome)
    obtain smtpResult started where o: "outcome = (smtpResult, started)" by (cases outcome)
    have p: "performSMTPCheck (smtp_net env i) (exchange m) a d (Some cfg)
               = Some (Inr (smtpResult, started))"
      using Some o by (simp add: performSMTPCheck_def)
    show ?thesis
    proof (cases "success smtpResult")
      case True
      with Cons.prems p show ?thesis by (auto simp: Let_def)
    next
      case False
      with Cons.prems p have
        "mxLoop env a d cfg (i + 1) ms
           (res\<lparr>details := (details res)\<lparr>smtpResponse := Some smtpResult\<rparr>\<rparr>) (error smtpResult)
         = Some (res', le')"
        by (simp add: Let_def)
      from Cons.IH[OF this] show ?thesis by simp
    qed
  qed
qed

lemma conclude_fields:
  "checks (conclude res le) = checks res"
  "email (conclude res le) = email res"
  "valid (conclude res le)
     = (format (checks res) \<and> dns (checks res) \<and> mx (checks res) \<and> mailbox (checks res))"
  "valid (conclude res le) \<Longrightarrow> reason (conclude res le) = ''Email verified successfully''"
  by (auto simp: conclude_def Let_def split: if_splits)

lemma lookupAndProbe_fields:
  assumes "format (checks res)" "\<not> dns (checks res)" "\<not> mx (checks res)"
    "\<not> smtp (checks res)" "\<not> mailbox (checks res)" "\<not> valid res"
    and r: "lookupAndProbe env res a d = Some r"
  shows "valid r = (format (checks r) \<and> dns (checks r) \<and> mx (checks r) \<and> mailbox (checks r))"
    and "mailbox (checks r) \<Longrightarrow>
           smtp (checks r) \<and> format (checks r) \<and> dns (checks r) \<and> mx (checks r) \<and> valid r
           \<and> reason r = ''Email verified successfully''"
    and "email r = email res"
proof -
  have "(valid r = (format (checks r) \<and> dns (checks r) \<and> mx (checks r) \<and> mailbox (checks r)))
      \<and> (mailbox (checks r) \<longrightarrow> smtp (checks r) \<and> format (checks r) \<and> dns (checks r)
            \<and> mx (checks r) \<and> valid r \<and> reason r = ''Email verified successfully'')
      \<and> email r = email res"
  proof (cases "checkDNS env d")
    case False
    then show ?thesis using assms by (auto simp: lookupAndProbe_def Let_def)
  next
    case True
    show ?thesis
    proof (cases "checkMX env d")
      case None
      then show ?thesis using assms True by (auto simp: lookupAndProbe_def Let_def)
    next
      case (Some records)
      let ?res1 = "res\<lparr>checks := (checks res)\<lparr>dns := True, mx := True, spf := fst (checkSPF env d)\<rparr>,
                       details := (details res)\<lparr>mxRecords := records, spfRecord := snd (checkSPF env d)\<rparr>\<rparr>"
      from r True Some obtain res' le' where
        m: "mxLoop env a d (getProviderConfig d) 0 records ?res1 None = Some (res', le')"
        and c: "r = conclude res' le'"
        by (auto simp: lookupAndProbe_def Let_def split: option.splits)
      from mxLoop_checks[OF m] assms(1-6) show ?thesis
        unfolding c by (auto simp: conclude_fields)
    qed
  qed
  then show "valid r = (format (checks r) \<and> dns (checks r) \<and> mx (checks r) \<and> mailbox (checks r))"
    and "mailbox (checks r) \<Longrightarrow> smtp (checks r) \<and> format (checks r) \<and> dns (checks r)
            \<and> mx (checks r) \<and> valid r \<and> reason r = ''Email verified successfully''"
    and "email r = email res"
    by blast+
qed

lemma formatPassed_fields:
  "format (checks (formatPassed v))" "\<not> dns (checks (formatPassed v))"
  "\<not> mx (checks (formatPassed v))" "\<not> smtp (checks (formatPassed v))"
  "\<not> mailbox (checks (formatPassed v))" "\<not> valid (formatPassed v)"
  "email (formatPassed v) = v"
  by (simp_all add: formatPassed_def initialResult_def)

text \<open>The example: every stage passes and the mail server accepts the recipient.\<close>

lemma example_format: "validateEmailFormat (JStr ''a@b.co'')"
  by code_simp

lemma example_split: "js_split ''@'' ''a@b.co'' = [''a'', ''b.co'']"
  by code_simp

lemma example_policy: "getProviderConfig ''b.co'' = genericConfig"
proof -
  have "toLowerCase ''b.co'' = ''b.co''"
    by (simp add: toLowerCase_def lower_char_def in_range_def)
  then show ?thesis
    by (simp add: getProviderConfig_def PROVIDERS_def startsWith_def Let_def)
qed

lemma example_check:
  "performSMTPCheck (answering ''250 ok'') ''m'' ''a@b.co'' ''b.co'' (Some genericConfig)
     = Some (Inr (\<lparr>success = True, mailboxExists = True, supportsTLS = Some False,
             replyCode = Some 250, replyMessage = Some ''ok'', error = None,
             protected = False\<rparr>, 1))"
proof -
  let ?probe = "probeCompleted False \<lparr>code = 250, message = ''ok'',
                 fullResponse = ''250 ok'' @ [CR, LF]\<rparr>"
  have p: "verifyMailbox (session (answering ''250 ok'' 0)) ''m'' ''a@b.co'' ''b.co''
                  (Some genericConfig) = Some ?probe"
    unfolding answering_def attempt_env.simps
    by (rule plain_probe[OF _ _ await_250]) (simp_all add: genericConfig_def)
  have c: "0 < retryAttempts genericConfig" "250 \<in> set (acceptCodes genericConfig)"
    by (simp_all add: genericConfig_def)
  have a: "preconnect_error (answering ''250 ok'' 0) = None" by (simp add: answering_def)
  have s: "success ?probe" "replyCode ?probe = Some 250"
    by (simp_all add: probeCompleted_def)
  have "smtpAttempts genericConfig (answering ''250 ok'') ''m'' ''a@b.co'' ''b.co'' 0 None
      = Some (definitive ?probe True 250 (replyMessage ?probe) False, 0 + 1)"
    using smtpAttempts_step[where net = "answering ''250 ok''" and attempt = 0
        and config = genericConfig and lastError = None, OF c(1) a p s] c(2)
    by simp
  then show ?thesis
    by (simp add: performSMTPCheck_def definitive_def probeCompleted_def)
qed

lemma example_validation:
  "validateEmail exampleEnv (JStr ''a@b.co'') = Some (Inr exampleResult)"
  by (simp add: validateEmail_def initialResult_def example_format example_split
        lookupAndProbe_def checkDNS_def checkMX_def checkSPF_def exampleEnv_def
        example_policy example_check conclude_def exampleResult_def Let_def)

text \<open>
  C1. In every result \<open>validateEmail\<close> returns, \<open>valid\<close> is the conjunction of the checks
  \<open>format\<close>, \<open>dns\<close>, \<open>mx\<close> and \<open>mailbox\<close>; \<open>spf\<close> and \<open>smtp\<close> do not occur in it.
\<close>

theorem validateEmail_verdict:
  "validateEmail env v = Some (Inr r) \<Longrightarrow>
     valid r = (format (checks r) \<and> dns (checks r) \<and> mx (checks r) \<and> mailbox (checks r))"
  using validateEmail_returns[of env v r]
    lookupAndProbe_fields(1)[OF formatPassed_fields(1-6), of env v]
  by (auto simp: initialResult_def formatPassed_def)

theorem validateEmail_verdict_witness:
  "validateEmail exampleEnv (JStr ''a@b.co'') = Some (Inr exampleResult)
   \<and> valid exampleResult
       = (format (checks exampleResult) \<and> dns (checks exampleResult) \<and> mx (checks exampleResult)
          \<and> mailbox (checks exampleResult))
   \<and> valid exampleResult \<and> \<not> spf (checks exampleResult)"
  using validateEmail_verdict[OF example_validation] example_validation
  by (simp add: exampleResult_def)

text \<open>The TXT lookup has no influence on the verdict.\<close>

lemma mxLoop_mailbox_rel:
  "smtp_net env' = smtp_net env \<Longrightarrow> mailbox (checks res') = mailbox (checks res) \<Longrightarrow>
   map_option (\<lambda>p. mailbox (checks (fst p))) (mxLoop env' a d cfg i ms res' le')
     = map_option (\<lambda>p. mailbox (checks (fst p))) (mxLoop env a d cfg i ms res le)"
proof (induction ms arbitrary: i res res' le le')
  case Nil
  then show ?case by simp
next
  case (Cons m ms)
  show ?case
  proof (cases "performSMTPCheck (smtp_net env i) (exchange m) a d (Some cfg)")
    case None
    with Cons.prems(1) show ?thesis by simp
  next
    case (Some outcome)
    show ?thesis
    proof (cases outcome)
      case (Inl e)
      with Some Cons show ?thesis by simp
    next
      case (Inr p)
      obtain r k where p: "p = (r, k)" by (cases p)
      show ?thesis
      proof (cases "success r")
        case True
        with Some Inr p Cons.prems show ?thesis by (simp add: Let_def)
      next
        case False
        have "map_option (\<lambda>p. mailbox (checks (fst p))) (mxLoop env' a d cfg (i + 1) ms
                  (res'\<lparr>details := (details res')\<lparr>smtpResponse := Some r\<rparr>\<rparr>) (error r))
            = map_option (\<lambda>p. mailbox (checks (fst p))) (mxLoop env a d cfg (i + 1) ms
                  (res\<lparr>details := (details res)\<lparr>smtpResponse := Some r\<rparr>\<rparr>) (error r))"
          by (rule Cons.IH) (simp_all add: Cons.prems)
        with False Some Inr p Cons.prems(1) show ?thesis by (simp add: Let_def)
      qed
    qed
  qed
qed

lemma lookupAndProbe_valid_probe:
  assumes "checkDNS e d" "checkMX e d = Some records"
  shows "map_option valid (lookupAndProbe e res a d)
     = map_option (\<lambda>p. format (checks res) \<and> mailbox (checks (fst p)))
         (mxLoop e a d (getProviderConfig d) 0 records (afterLookups e res d records) None)"
proof (cases "mxLoop e a d (getProviderConfig d) 0 records (afterLookups e res d records) None")
  case None
  then show ?thesis
    using assms by (simp add: lookupAndProbe_def Let_def afterLookups_def)
next
  case (Some p)
  obtain r le where p: "p = (r, le)" by (cases p)
  have "lookupAndProbe e res a d = Some (conclude r le)"
    using assms Some p by (simp add: lookupAndProbe_def Let_def afterLookups_def)
  moreover from mxLoop_checks[OF Some[unfolded p]]
  have "format (checks r) = format (checks res)" "dns (checks r)" "mx (checks r)"
    by (simp_all add: afterLookups_def)
  ultimately show ?thesis using Some p by (simp add: conclude_fields)
qed

lemma lookupAndProbe_txt:
  "map_option valid (lookupAndProbe (env\<lparr>resolveTxt := lookup\<rparr>) res a d)
     = map_option valid (lookupAndProbe env res a d)"
proof -
  let ?env' = "env\<lparr>resolveTxt := lookup\<rparr>"
  have dns: "checkDNS ?env' d = checkDNS env d" and mx: "checkMX ?env' d = checkMX env d"
    by (simp_all add: checkDNS_def checkMX_def)
  show ?thesis
  proof (cases "checkDNS env d")
    case False
    then show ?thesis using dns by (simp add: lookupAndProbe_def Let_def)
  next
    case True
    show ?thesis
    proof (cases "checkMX env d")
      case None
      then show ?thesis using True dns mx by (simp add: lookupAndProbe_def Let_def)
    next
      case (Some records)
      let ?X' = "mxLoop ?env' a d (getProviderConfig d) 0 records
                   (afterLookups ?env' res d records) None"
      let ?X = "mxLoop env a d (getProviderConfig d) 0 records
                   (afterLookups env res d records) None"
      have "map_option (\<lambda>p. mailbox (checks (fst p))) ?X'
          = map_option (\<lambda>p. mailbox (checks (fst p))) ?X"
        by (rule mxLoop_mailbox_rel) (simp_all add: afterLookups_def)
      then have "map_option (\<lambda>p. format (checks res) \<and> mailbox (checks (fst p))) ?X'
          = map_option (\<lambda>p. format (checks res) \<and> mailbox (checks (fst p))) ?X"
        by (cases ?X'; cases ?X) simp_all
      then show ?thesis
        using lookupAndProbe_valid_probe[of env d records res a]
          lookupAndProbe_valid_probe[of "env\<lparr>resolveTxt := lookup\<rparr>" d records res a] True Some dns mx
        by simp
    qed
  qed
qed

lemma map_option_Inr_valid:
  "map_option valid X' = map_option valid X \<Longrightarrow>
     map_option (\<lambda>x. Inr (valid x)) X' = map_option (\<lambda>x. Inr (valid x)) X"
  by (cases X'; cases X) simp_all

lemma verdict_independent_of_txt:
  assumes "validateEmail env v = Some (Inr r)"
  shows "\<exists>r'. validateEmail (env\<lparr>resolveTxt := lookup\<rparr>) v = Some (Inr r') \<and> valid r' = valid r"
proof -
  have "map_option (map_sum id valid) (validateEmail (env\<lparr>resolveTxt := lookup\<rparr>) v)
      = map_option (map_sum id valid) (validateEmail env v)"
    using lookupAndProbe_txt[where env = env and lookup = lookup]
    by (auto simp: validateEmail_def Let_def option.map_comp comp_def
             split: if_splits js_value.splits list.splits intro!: map_option_Inr_valid)
  with assms show ?thesis
    by (cases "validateEmail (env\<lparr>resolveTxt := lookup\<rparr>) v") (auto simp: map_sum_def split: sum.splits)
qed

section \<open>Termination of a validation\<close>

text \<open>No exception leaves \<open>validateEmail\<close>, whatever the resolver and the mail servers do.\<close>

lemma validateEmail_no_exception: "validateEmail env v \<noteq> Some (Inl e)"
  using validateEmail_cases[of v env] by (auto split: if_splits)

text \<open>
  A probe whose handshake settles returns, and so does a validation in which the
  handshake of every session settles; the result is an object for the value passed.
\<close>

lemma verifyMailbox_settles:
  "handshake env \<noteq> HandshakePending \<Longrightarrow> \<exists>r. verifyMailbox env host a d cfg = Some r"
  by (auto simp: verifyMailbox_def startTLS_def
           split: sum.splits prod.splits option.splits tls_outcome.splits)

lemma smtpAttempts_settles:
  "\<forall>k. handshake (session (net k)) \<noteq> HandshakePending \<Longrightarrow>
     \<exists>r. smtpAttempts cfg net host a d attempt le = Some r"
proof (induction cfg net host a d attempt le rule: smtpAttempts.induct)
  case (1 config net mxServer email domain attempt lastError)
  note IH = "1.IH" "1.prems"
  show ?case
  proof (cases "attempt < retryAttempts config")
    case False
    then show ?thesis by (subst smtpAttempts.simps) simp
  next
    case True
    show ?thesis
    proof (cases "preconnect_error (net attempt)")
      case (Some e)
      with True IH show ?thesis
        by (subst smtpAttempts.simps) simp
    next
      case None
      from verifyMailbox_settles[of "session (net attempt)"] "1.prems" obtain result where
        v: "verifyMailbox (session (net attempt)) mxServer email domain (Some config)
              = Some result" by blast
      show ?thesis
      proof (cases "if success result then replyCode result else None")
        case n: None
        with True None v IH show ?thesis
          by (subst smtpAttempts.simps) simp
      next
        case (Some c)
        with True None v IH show ?thesis
          by (subst smtpAttempts.simps) simp
      qed
    qed
  qed
qed

lemma mxLoop_settles:
  "\<forall>i k. handshake (session (smtp_net env i k)) \<noteq> HandshakePending \<Longrightarrow>
     \<exists>r. mxLoop env a d cfg i ms res le = Some r"
proof (induction ms arbitrary: i res le)
  case Nil
  then show ?case by simp
next
  case (Cons m ms)
  from Cons.prems have "\<forall>k. handshake (session (smtp_net env i k)) \<noteq> HandshakePending"
    by simp
  from smtpAttempts_settles[OF this, of cfg "exchange m" a d 0 None]
  obtain smtpResult started where
    "smtpAttempts cfg (smtp_net env i) (exchange m) a d 0 None = Some (smtpResult, started)"
    by fastforce
  then have p: "performSMTPCheck (smtp_net env i) (exchange m) a d (Some cfg)
                  = Some (Inr (smtpResult, started))"
    by (simp add: performSMTPCheck_def)
  show ?case
    using p Cons.IH[OF Cons.prems] by (simp add: Let_def)
qed

lemma validateEmail_returns_when_handshakes_settle:
  assumes "\<forall>i k. handshake (session (smtp_net env i k)) \<noteq> HandshakePending"
  shows "\<exists>r. validateEmail env v = Some (Inr r) \<and> email r = v"
proof -
  have l: "\<exists>r. lookupAndProbe env res a d = Some r" for res a d
  proof (cases "checkDNS env d")
    case False
    then show ?thesis by (simp add: lookupAndProbe_def Let_def)
  next
    case True
    show ?thesis
    proof (cases "checkMX env d")
      case None
      with True show ?thesis by (simp add: lookupAndProbe_def Let_def)
    next
      case (Some records)
      let ?res1 = "res\<lparr>checks := (checks res)\<lparr>dns := True, mx := True, spf := fst (checkSPF env d)\<rparr>,
                       details := (details res)\<lparr>mxRecords := records, spfRecord := snd (checkSPF env d)\<rparr>\<rparr>"
      from mxLoop_settles[OF assms, of a d "getProviderConfig d" 0 records ?res1 None]
      obtain r le where "mxLoop env a d (getProviderConfig d) 0 records ?res1 None = Some (r, le)"
        by fastforce
      with True Some show ?thesis by (simp add: lookupAndProbe_def Let_def)
    qed
  qed
  from validateEmail_cases[of v env] show ?thesis
  proof
    assume "\<not> validateEmailFormat v
      \<and> validateEmail env v = Some (Inr ((initialResult v)\<lparr>reason := ''Invalid email format''\<rparr>))"
    then show ?thesis by (simp add: initialResult_def)
  next
    assume "\<exists>l d. v = JStr (l @ CHR ''@'' # d) \<and> validateEmailFormat v \<and> length l \<le> 63
        \<and> validateEmail env v =
            (if length d > 255
             then Some (Inr ((formatPassed v)\<lparr>reason := ''Domain exceeds maximum length''\<rparr>))
             else map_option Inr (lookupAndProbe env (formatPassed v) (l @ CHR ''@'' # d) d))"
    then obtain a d where
      c: "validateEmail env v =
            (if length d > 255
             then Some (Inr ((formatPassed v)\<lparr>reason := ''Domain exceeds maximum length''\<rparr>))
             else map_option Inr (lookupAndProbe env (formatPassed v) a d))"
      by blast
    show ?thesis
    proof (cases "length d > 255")
      case True
      with c show ?thesis by (simp add: formatPassed_fields)
    next
      case False
      from l[of "formatPassed v" a d] obtain r where
        r: "lookupAndProbe env (formatPassed v) a d = Some r" by blast
      from lookupAndProbe_fields(3)[OF formatPassed_fields(1-6) r]
      have "email r = v" by (simp add: formatPassed_fields)
      with c False r show ?thesis by simp
    qed
  qed
qed

text \<open>The silent mail server: the probe, the retry loop and the validation stay pending.\<close>

lemma silent_probe:
  "verifyMailbox silentSession ''m'' ''a@b.co'' ''b.co'' (Some genericConfig) = None"
  using has_starttls
  by (simp add: verifyMailbox_def greetAndHello_def heloHosts_def startTLS_def genericConfig_def
        command_def silentSession_def scripted_def await_220 await_starttls await_220_go)

lemma silent_validation: "validateEmail silentEnv (JStr ''a@b.co'') = None"
proof -
  have "smtpAttempts genericConfig (\<lambda>k. \<lparr>preconnect_error = None, session = silentSession\<rparr>)
          ''m'' ''a@b.co'' ''b.co'' 0 None = None"
    by (subst smtpAttempts.simps) (simp add: silent_probe, simp add: genericConfig_def)
  then have "performSMTPCheck (\<lambda>k. \<lparr>preconnect_error = None, session = silentSession\<rparr>)
          ''m'' ''a@b.co'' ''b.co'' (Some genericConfig) = None"
    by (simp add: performSMTPCheck_def)
  then show ?thesis
    by (simp add: validateEmail_def initialResult_def example_format example_split
          lookupAndProbe_def checkDNS_def checkMX_def checkSPF_def silentEnv_def exampleEnv_def
          example_policy Let_def)
qed

text \<open>
  C2. The claim: \<open>validateEmail\<close> terminates for every input and returns a result
  object. The mail server of \<open>silentEnv\<close> greets, advertises STARTTLS, answers the
  command with 220 and is silent from then on. \<open>upgradeToTLS\<close> has no timer, unlike
  \<open>connect\<close> and \<open>command\<close>: its promise stays pending, and with it the probe, the retry
  loop and \<open>validateEmail\<close>, which returns no result for a well-formed address.
\<close>

theorem validateEmail_pending_on_silent_handshake:
  "validateEmailFormat (JStr ''a@b.co'')
   \<and> command silentSession 2 (Some ''STARTTLS'')
       = Inr \<lparr>code = 220, message = ''go'', fullResponse = ''220 go'' @ [CR, LF]\<rparr>
   \<and> handshake (session (smtp_net silentEnv 0 0)) = HandshakePending
   \<and> verifyMailbox (session (smtp_net silentEnv 0 0)) ''m'' ''a@b.co'' ''b.co''
        (Some (getProviderConfig ''b.co'')) = None
   \<and> validateEmail silentEnv (JStr ''a@b.co'') = None"
proof -
  have c: "command silentSession 2 (Some ''STARTTLS'')
       = Inr \<lparr>code = 220, message = ''go'', fullResponse = ''220 go'' @ [CR, LF]\<rparr>"
    by (simp add: command_def silentSession_def scripted_def await_220_go)
  have s: "session (smtp_net silentEnv 0 0) = silentSession"
    by (simp add: silentEnv_def)
  have h: "handshake silentSession = HandshakePending"
    by (simp add: silentSession_def)
  show ?thesis
    unfolding s example_policy
    using example_format c h silent_probe silent_validation by blast
qed

text \<open>
  C10. In every result \<open>validateEmail\<close> returns, a true \<open>mailbox\<close> check comes with true
  \<open>smtp\<close>, \<open>format\<close>, \<open>dns\<close> and \<open>mx\<close> checks, with \<open>valid = true\<close> and with the reason
  "Email verified successfully".
\<close>

theorem confirmed_mailbox_implies_all:
  "validateEmail env v = Some (Inr r) \<Longrightarrow> mailbox (checks r) \<Longrightarrow>
     smtp (checks r) \<and> format (checks r) \<and> dns (checks r) \<and> mx (checks r) \<and> valid r
     \<and> reason r = ''Email verified successfully''"
  using validateEmail_returns[of env v r]
    lookupAndProbe_fields(2)[OF formatPassed_fields(1-6), of env v]
  by (auto simp: initialResult_def formatPassed_def split: if_splits)

theorem confirmed_mailbox_implies_all_witness:
  "validateEmail exampleEnv (JStr ''a@b.co'') = Some (Inr exampleResult)
   \<and> mailbox (checks exampleResult)
   \<and> smtp (checks exampleResult) \<and> format (checks exampleResult) \<and> dns (checks exampleResult)
   \<and> mx (checks exampleResult) \<and> valid exampleResult
   \<and> reason exampleResult = ''Email verified successfully''"
proof -
  have m: "mailbox (checks exampleResult)" by (simp add: exampleResult_def)
  from confirmed_mailbox_implies_all[OF example_validation m] example_validation m
  show ?thesis by blast
qed

lemma takeWhile_until: "c \<notin> set l \<Longrightarrow> takeWhile (\<lambda>x. x \<noteq> c) (l @ c # d) = l"
  by (induction l) auto

lemma local64_format: "\<not> validateEmailFormat (JStr local64)"
proof
  assume "validateEmailFormat (JStr local64)"
  then have "test_full emailRegex local64" by (simp add: validateEmailFormat_def)
  from emailRegex_shape[OF this] obtain l d where
    ld: "local64 = l @ CHR ''@'' # d" "length l \<le> 63" "CHR ''@'' \<notin> set l"
    by blast
  have "takeWhile (\<lambda>c. c \<noteq> CHR ''@'') local64 = replicate 64 CHR ''a''"
    unfolding local64_def by (simp add: takeWhile_until)
  moreover have "takeWhile (\<lambda>c. c \<noteq> CHR ''@'') (l @ CHR ''@'' # d) = l"
    using ld(3) by (rule takeWhile_until)
  ultimately have "l = replicate 64 CHR ''a''" using ld(1) by simp
  with ld(2) show False by simp
qed

text \<open>
  C3. The regular expression lets a local part have 63 characters at most, so an
  address with a local part of 64 characters, inside the cap of 64, is returned
  with \<open>format = false\<close> and the reason "Invalid email format".
\<close>

theorem local_part_of_64_rejected:
  "validateEmail env (JStr local64)
     = Some (Inr \<lparr>email = JStr local64, valid = False,
            checks = \<lparr>format = False, dns = False, mx = False, spf = False, smtp = False,
                      mailbox = False\<rparr>,
            details = \<lparr>mxRecords = [], spfRecord = None, smtpResponse = None\<rparr>,
            reason = ''Invalid email format''\<rparr>)"
  using local64_format by (simp add: validateEmail_def initialResult_def Let_def)

text \<open>The branch for a local part over 64 characters is never taken.\<close>

lemma conclude_reason:
  "reason (conclude res le) \<noteq> ''Local part exceeds maximum length''"
  by (simp add: conclude_def Let_def)

lemma lookupAndProbe_reason:
  "lookupAndProbe env res a d = Some r \<Longrightarrow> reason r \<noteq> ''Local part exceeds maximum length''"
  by (auto simp: lookupAndProbe_def Let_def conclude_reason
           split: option.splits prod.splits if_splits)

lemma local_length_reason_unreachable:
  "validateEmail env v = Some (Inr r) \<Longrightarrow> reason r \<noteq> ''Local part exceeds maximum length''"
  using validateEmail_returns[of env v r] lookupAndProbe_reason[of env "formatPassed v" _ _ r]
  by (auto simp: initialResult_def formatPassed_def)

text \<open>
  A local part of 63 characters passes the format check, and a domain of 256 characters
  is answered with the reason for the length of the domain.
\<close>

lemma short_domain: "''b.co'' \<in> lang domainRegex"
proof -
  have "test_full domainRegex ''b.co''" by code_simp
  then show ?thesis by (rule test_full_lang)
qed

lemma local_part_of_63_accepted:
  "validateEmailFormat (JStr (replicate 63 CHR ''a'' @ ''@b.co''))"
proof -
  have "replicate 63 CHR ''a'' @ ([CHR ''@''] @ ''b.co'') \<in> lang emailRegex"
    unfolding emailRegex_def Chr_def using local63 short_domain
    by (simp only: lang.simps) blast
  then show ?thesis by (simp add: validateEmailFormat_def test_full_iff)
qed

lemma tld_com:
  "''.com'' \<in> lang (Plus (Seq (Chr CHR ''.'') (Seq (Cls alpha) (Seq (Cls alpha) (Star (Cls alpha))))))"
proof -
  have "test_full (Plus (Seq (Chr CHR ''.'') (Seq (Cls alpha) (Seq (Cls alpha) (Star (Cls alpha))))))
          ''.com''"
    by code_simp
  then show ?thesis by (rule test_full_lang)
qed

lemma domain256_lang: "domain256 \<in> lang domainRegex"
proof -
  let ?C = "Cls (\<lambda>c. alnum c \<or> c = CHR ''-'')"
  have "replicate 250 CHR ''a'' \<in> lang (Star ?C)"
    using replicate_iter[of "\<lambda>c. alnum c \<or> c = CHR ''-''" "CHR ''a''" 250] a_alnum by simp
  then have "replicate 250 CHR ''a'' @ [CHR ''a''] \<in> lang (Opt (Seq (Star ?C) (Cls alnum)))"
    unfolding Opt_def using a_alnum by (simp only: lang.simps) blast
  with tld_com have "(replicate 250 CHR ''a'' @ [CHR ''a'']) @ ''.com''
      \<in> lang (Seq (Opt (Seq (Star ?C) (Cls alnum)))
                (Plus (Seq (Chr CHR ''.'') (Seq (Cls alpha) (Seq (Cls alpha) (Star (Cls alpha)))))))"
    by (simp only: lang.simps) blast
  then have "[CHR ''a''] @ ((replicate 250 CHR ''a'' @ [CHR ''a'']) @ ''.com'') \<in> lang domainRegex"
    unfolding domainRegex_def using a_alnum by (simp only: lang.simps) blast
  moreover have "[CHR ''a''] @ ((replicate 250 CHR ''a'' @ [CHR ''a'']) @ ''.com'') = domain256"
    by (simp add: domain256_def eval_nat_numeral replicate_append_same)
  ultimately show ?thesis by simp
qed

lemma domain_of_256_length_reason:
  "length domain256 = 256"
  "validateEmail env (JStr (''a@'' @ domain256))
     = Some (Inr \<lparr>email = JStr (''a@'' @ domain256), valid = False,
            checks = \<lparr>format = True, dns = False, mx = False, spf = False, smtp = False,
                      mailbox = False\<rparr>,
            details = \<lparr>mxRecords = [], spfRecord = None, smtpResponse = None\<rparr>,
            reason = ''Domain exceeds maximum length''\<rparr>)"
proof -
  show len: "length domain256 = 256" by (simp add: domain256_def)
  have "test_full localRegex ''a''" by code_simp
  then have a: "[CHR ''a''] \<in> lang localRegex" by (rule test_full_lang)
  have "[CHR ''a''] @ ([CHR ''@''] @ domain256) \<in> lang emailRegex"
    unfolding emailRegex_def Chr_def using a domain256_lang
    by (simp only: lang.simps) blast
  then have f: "validateEmailFormat (JStr (''a@'' @ domain256))"
    by (simp add: validateEmailFormat_def test_full_iff)
  have "CHR ''@'' \<notin> set domain256" using lang_domainRegex[OF domain256_lang] .
  then have "js_split ''@'' (''a@'' @ domain256) = [''a'', domain256]"
    using js_split_at[of "''a''" domain256] by simp
  with f len show "validateEmail env (JStr (''a@'' @ domain256))
     = Some (Inr \<lparr>email = JStr (''a@'' @ domain256), valid = False,
            checks = \<lparr>format = True, dns = False, mx = False, spf = False, smtp = False,
                      mailbox = False\<rparr>,
            details = \<lparr>mxRecords = [], spfRecord = None, smtpResponse = None\<rparr>,
            reason = ''Domain exceeds maximum length''\<rparr>)"
    by (simp add: validateEmail_def initialResult_def Let_def)
qed

section \<open>Batch processor\<close>

lemma events_simps:
  "events [] = []"
  "events (Data e # ws) = e # events ws"
  "events (Comment c # ws) = events ws"
  "events (ws @ ws') = events ws @ events ws'"
  by (simp_all add: events_def List.map_filter_def)

lemma percentages_simps:
  "percentages [] = []"
  "percentages (ProgressEvent p rs # es) = p # percentages es"
  "percentages (InitEvent n hs # es) = percentages es"
  "percentages (ErrorEvent m # es) = percentages es"
  "percentages (CompleteEvent # es) = percentages es"
  "percentages (es @ es') = percentages es @ percentages es'"
  by (simp_all add: percentages_def List.map_filter_def)

lemma promiseAll_length: "promiseAll ps = Some xs \<Longrightarrow> length xs = length ps"
  by (induction ps arbitrary: xs) (auto split: option.splits)

lemma promiseAll_settles: "\<forall>p \<in> set ps. p \<noteq> None \<Longrightarrow> \<exists>xs. promiseAll ps = Some xs"
  by (induction ps) auto

lemma length_processChunk:
  "processChunk validate records = Some results \<Longrightarrow> length results = length records"
  by (auto simp: processChunk_def dest: promiseAll_length)

lemma processChunk_settles:
  assumes "\<forall>a. validate a \<noteq> None"
  shows "\<exists>results. processChunk validate records = Some results"
proof -
  have "processRecord validate r \<noteq> None" for r
  proof (cases "emailField r")
    case None
    then show ?thesis by (simp add: processRecord_def)
  next
    case (Some a)
    from assms have "validate a \<noteq> None" by blast
    then obtain y where "validate a = Some y" by (cases "validate a") simp_all
    with Some show ?thesis by (cases y) (simp_all add: processRecord_def)
  qed
  then show ?thesis
    unfolding processChunk_def by (intro promiseAll_settles) simp
qed

text \<open>
  The percentages written by the second pass never decrease and stay between the
  percentage of the rows already processed and 100, whether the pass comes to its end
  or not.
\<close>

lemma secondPass_progress:
  assumes "processedCount + length currentChunk + length rest \<le> totalRecords"
    and "0 < totalRecords"
  shows "sorted (percentages (events (fst (secondPass validate totalRecords rest currentChunk
                                             processedCount))))
       \<and> (\<forall>p \<in> set (percentages (events (fst (secondPass validate totalRecords rest currentChunk
                                                   processedCount)))).
             real processedCount / real totalRecords * 100 \<le> p \<and> p \<le> 100)"
  using assms
proof (induction rest arbitrary: currentChunk processedCount)
  case Nil
  then have "real processedCount / real totalRecords * 100 \<le> 100"
    by (simp add: field_simps)
  then show ?case
    by (simp add: events_simps percentages_simps split: option.splits)
next
  case (Cons r rest)
  show ?case
  proof (cases "length (currentChunk @ [r]) \<ge> CHUNK_SIZE")
    case False
    then have e: "secondPass validate totalRecords (r # rest) currentChunk processedCount
        = secondPass validate totalRecords rest (currentChunk @ [r]) processedCount"
      by (simp add: Let_def)
    from Cons.prems have "processedCount + length (currentChunk @ [r]) + length rest \<le> totalRecords"
      by simp
    from Cons.IH[OF this Cons.prems(2)] show ?thesis unfolding e .
  next
    case True
    show ?thesis
    proof (cases "processChunk validate (currentChunk @ [r])")
      case None
      with True show ?thesis
        by (simp add: Let_def events_simps percentages_simps)
    next
      case (Some results)
      let ?n = "processedCount + length (currentChunk @ [r])"
      let ?tail = "secondPass validate totalRecords rest [] ?n"
      let ?p = "real ?n / real totalRecords * 100"
      from length_processChunk[OF Some] have l: "length results = length (currentChunk @ [r])" .
      from True Some l have e:
        "fst (secondPass validate totalRecords (r # rest) currentChunk processedCount)
          = Data (ProgressEvent ?p results) # Comment ''keepalive'' # fst ?tail"
        by (simp add: Let_def case_prod_beta)
      from Cons.prems have le: "?n + length ([]::csv_record list) + length rest \<le> totalRecords"
        by simp
      note ih = Cons.IH[OF le Cons.prems(2)]
      from le Cons.prems(2) have p100: "?p \<le> 100" by (simp add: field_simps)
      have pp: "real processedCount / real totalRecords * 100 \<le> ?p"
        using Cons.prems(2) by (simp add: field_simps)
      have "sorted (?p # percentages (events (fst ?tail)))"
        using ih by simp
      moreover have "\<forall>q \<in> set (?p # percentages (events (fst ?tail))).
          real processedCount / real totalRecords * 100 \<le> q \<and> q \<le> 100"
        using ih p100 pp by auto
      ultimately show ?thesis
        unfolding e by (simp add: events_simps percentages_simps)
    qed
  qed
qed

text \<open>
  When every validation settles the pass comes to its end, and the last event it writes
  is the complete event.
\<close>

lemma secondPass_completes:
  assumes "\<forall>a. validate a \<noteq> None"
  shows "snd (secondPass validate totalRecords rest currentChunk processedCount)
       \<and> events (fst (secondPass validate totalRecords rest currentChunk processedCount)) \<noteq> []
       \<and> last (events (fst (secondPass validate totalRecords rest currentChunk processedCount)))
           = CompleteEvent"
proof (induction rest arbitrary: currentChunk processedCount)
  case Nil
  from processChunk_settles[OF assms, of currentChunk] show ?case
    by (auto simp: events_simps)
next
  case (Cons r rest)
  from processChunk_settles[OF assms, of "currentChunk @ [r]"] obtain results where
    "processChunk validate (currentChunk @ [r]) = Some results" by blast
  then show ?case
    using Cons.IH[of "currentChunk @ [r]" processedCount]
      Cons.IH[of "[]" "processedCount + length results"]
    by (simp add: Let_def events_simps case_prod_beta)
qed

text \<open>When the pass does not come to its end, the complete event is not written.\<close>

lemma secondPass_stalled:
  "\<not> snd (secondPass validate totalRecords rest currentChunk processedCount) \<Longrightarrow>
     CompleteEvent \<notin> set (events (fst (secondPass validate totalRecords rest currentChunk
                                          processedCount)))"
proof (induction rest arbitrary: currentChunk processedCount)
  case Nil
  then show ?case by (auto simp: events_simps split: option.splits if_splits)
next
  case (Cons r rest)
  show ?case
  proof (cases "length (currentChunk @ [r]) \<ge> CHUNK_SIZE")
    case False
    then have e: "secondPass validate totalRecords (r # rest) currentChunk processedCount
        = secondPass validate totalRecords rest (currentChunk @ [r]) processedCount"
      by (simp add: Let_def)
    from Cons.IH[of "currentChunk @ [r]" processedCount] Cons.prems show ?thesis
      unfolding e .
  next
    case True
    show ?thesis
    proof (cases "processChunk validate (currentChunk @ [r])")
      case None
      with True show ?thesis by (simp add: Let_def events_simps)
    next
      case (Some results)
      with True Cons.prems Cons.IH[of "[]" "processedCount + length results"] show ?thesis
        by (simp add: Let_def events_simps case_prod_beta)
    qed
  qed
qed

text \<open>
  The stream of an upload that the parser reads without an error, when every validation
  settles: an upload without rows gives exactly one event, an error event; an upload
  with rows gives progress events whose percentages never decrease, the last event is
  the complete event, and the response is ended.
\<close>

lemma bulk_event_stream_when_validations_settle:
  assumes p: "parse_error src = None" and v: "\<forall>a. validate a \<noteq> None"
  shows "(rows src = [] \<longrightarrow>
        bulkValidate production validate src
          = ([Data (ErrorEvent (errorMessage production ''CSV file is empty''))], True))
   \<and> (rows src \<noteq> [] \<longrightarrow>
        snd (bulkValidate production validate src)
        \<and> sorted (percentages (events (fst (bulkValidate production validate src))))
        \<and> last (events (fst (bulkValidate production validate src))) = CompleteEvent)"
proof -
  have "bulkValidate production validate src
          = ([Data (ErrorEvent (errorMessage production ''CSV file is empty''))], True)"
    if "rows src = []"
    using p that by (simp add: bulkValidate_def)
  moreover have "snd (bulkValidate production validate src)
        \<and> sorted (percentages (events (fst (bulkValidate production validate src))))
        \<and> last (events (fst (bulkValidate production validate src))) = CompleteEvent"
    if "rows src \<noteq> []"
  proof -
    let ?n = "length (rows src)"
    from that have "0 < ?n" "0 + length ([]::csv_record list) + length (rows src) \<le> ?n"
      by simp_all
    from secondPass_progress[OF this(2,1), of validate]
      secondPass_completes[OF v, of ?n "rows src" "[]" 0] p that
    show ?thesis
      by (simp add: bulkValidate_def Let_def events_simps percentages_simps case_prod_beta)
  qed
  ultimately show ?thesis by blast
qed

lemma bulk_event_stream_example:
  "bulkValidate False (\<lambda>_. Some (Inl ''down'')) noRows
     = ([Data (ErrorEvent ''CSV file is empty'')], True)
   \<and> snd (bulkValidate False (\<lambda>_. Some (Inl ''down'')) sixRows)
   \<and> last (events (fst (bulkValidate False (\<lambda>_. Some (Inl ''down'')) sixRows))) = CompleteEvent
   \<and> percentages (events (fst (bulkValidate False (\<lambda>_. Some (Inl ''down'')) sixRows)))
       = [250 / 3, 100]"
proof -
  have n: "parse_error noRows = None" "rows noRows = []" by (simp_all add: noRows_def)
  have s: "parse_error sixRows = None" "rows sixRows \<noteq> []" by (simp_all add: sixRows_def)
  have v: "\<forall>a. (\<lambda>_. Some (Inl ''down'')) a \<noteq> (None :: (string + email_result) option)" by simp
  have e: "emailField [(''email'', ''a@b.co'')] = Some ''a@b.co''"
    by (simp add: emailField_def List.map_filter_def)
  have p: "percentages (events (fst (bulkValidate False (\<lambda>_. Some (Inl ''down'')) sixRows)))
             = [250 / 3, 100]"
    by (simp add: bulkValidate_def sixRows_def eval_nat_numeral events_simps
          percentages_simps CHUNK_SIZE_def Let_def processChunk_def processRecord_def e)
  from bulk_event_stream_when_validations_settle[OF n(1) v, of False] n(2)
  have "bulkValidate False (\<lambda>_. Some (Inl ''down'')) noRows
          = ([Data (ErrorEvent ''CSV file is empty'')], True)"
    by (simp add: errorMessage_def)
  moreover from bulk_event_stream_when_validations_settle[OF s(1) v, of False] s(2)
  have "snd (bulkValidate False (\<lambda>_. Some (Inl ''down'')) sixRows)
      \<and> last (events (fst (bulkValidate False (\<lambda>_. Some (Inl ''down'')) sixRows))) = CompleteEvent"
    by blast
  ultimately show ?thesis using p by blast
qed

text \<open>
  C9. The claim: for an upload with rows the last event of the stream is the complete
  event. The handler awaits \<open>validateEmail\<close> without a timer, and \<open>validateEmail\<close> does not
  return when a mail server is silent after its 220 to STARTTLS (the missing timer of
  \<open>upgradeToTLS\<close>, as in C2). For the upload of one row whose address is served by the
  mail server of \<open>silentEnv\<close>, the handler writes the init event and nothing more: no
  progress event, no complete event and no error event, and it does not reach
  \<open>res.end()\<close>.
\<close>

theorem bulk_stream_without_complete_event:
  "parse_error oneRow = None
   \<and> rows oneRow \<noteq> []
   \<and> bulkValidate False (\<lambda>addr. validateEmail silentEnv (JStr addr)) oneRow
       = ([Data (InitEvent 1 [''email'', ''validation_result'', ''validation_reason'',
                              ''mx_check'', ''dns_check'', ''spf_check'', ''mailbox_check'',
                              ''smtp_check''])],
          False)
   \<and> CompleteEvent
       \<notin> set (events (fst (bulkValidate False (\<lambda>addr. validateEmail silentEnv (JStr addr))
                              oneRow)))"
proof -
  have e: "emailField [(''email'', ''a@b.co'')] = Some ''a@b.co''"
    by (simp add: emailField_def List.map_filter_def)
  have "arrayIndex ''email'' = None"
    by (simp add: arrayIndex_def digit_def in_range_def)
  then have k: "objectKeys [(''email'', ''a@b.co'')] = [''email'']"
    by (simp add: objectKeys_def List.map_filter_def)
  have b: "bulkValidate False (\<lambda>addr. validateEmail silentEnv (JStr addr)) oneRow
       = ([Data (InitEvent 1 [''email'', ''validation_result'', ''validation_reason'',
                              ''mx_check'', ''dns_check'', ''spf_check'', ''mailbox_check'',
                              ''smtp_check''])],
          False)"
    by (simp add: bulkValidate_def oneRow_def CHUNK_SIZE_def Let_def processChunk_def
          processRecord_def e k silent_validation)
  have "parse_error oneRow = None" "rows oneRow \<noteq> []"
    by (simp_all add: oneRow_def)
  then show ?thesis
    unfolding b by (simp add: events_simps)
qed

text \<open>
  \<open>Object.keys\<close> on a row with the columns \<open>b\<close>, \<open>10\<close>, \<open>2\<close> and \<open>01\<close>: the array indices
  first, in numeric order.
\<close>

lemma objectKeys_example:
  "objectKeys [(''b'', ''x''), (''10'', ''y''), (''2'', ''z''), (''01'', ''w'')]
     = [''2'', ''10'', ''b'', ''01'']"
proof -
  have "arrayIndex ''10'' = Some 10" "arrayIndex ''2'' = Some 2" "arrayIndex ''01'' = None"
    "arrayIndex ''b'' = None"
    by (simp_all add: arrayIndex_def digit_def digit_val_def in_range_def Let_def)
  then show ?thesis
    by (simp add: objectKeys_def List.map_filter_def)
qed
end
